theory Spec2Isabelle
  imports Complex_Main "HOL-Library.Sublist"
begin

chapter \<open>RustMedia: schema triggers and admin upload client\<close>

text \<open>
  The development embeds the PL/pgSQL functions of
  \<^verbatim>\<open>src/migrations/001_create_tables.sql\<close> (the two row triggers and the
  sweep of expired chunked uploads) and the client-side upload and folder code of
  \<^verbatim>\<open>src/assets/js/settings.js\<close> and \<^verbatim>\<open>src/assets/js/admin.js\<close>.
  Part I holds the definitions, Part II the lemmas and theorems.
\<close>

section \<open>Part I: the model\<close>

subsection \<open>PostgreSQL values and errors\<close>

text \<open>
  UUIDs are abstracted to natural numbers, timestamps to natural numbers (a clock
  reading), and SQL \<^verbatim>\<open>NULL\<close> in a nullable column to \<open>None\<close>. PostgreSQL does
  not wrap integers: an \<^verbatim>\<open>INTEGER\<close> or \<^verbatim>\<open>BIGINT\<close> result out of range raises
  \<^verbatim>\<open>numeric_value_out_of_range\<close> and the statement is rolled back. Constraint
  violations are raised the same way. Every such failure is a value of \<open>pg_error\<close>.
\<close>

type_synonym uuid = nat
type_synonym timestamp = nat

datatype pg_error = UniqueViolation | ForeignKeyViolation | NumericValueOutOfRange

definition int4_ok :: "int \<Rightarrow> bool" where
  "int4_ok v \<longleftrightarrow> - 2147483648 \<le> v \<and> v \<le> 2147483647"

definition int8_ok :: "int \<Rightarrow> bool" where
  "int8_ok v \<longleftrightarrow> - 9223372036854775808 \<le> v \<and> v \<le> 9223372036854775807"

definition bind_pg :: "pg_error + 'a \<Rightarrow> ('a \<Rightarrow> pg_error + 'b) \<Rightarrow> pg_error + 'b" where
  "bind_pg r f = (case r of Inl e \<Rightarrow> Inl e | Inr x \<Rightarrow> f x)"

text \<open>
  The event a row trigger receives: \<^verbatim>\<open>TG_OP\<close> together with the rows
  \<^verbatim>\<open>OLD\<close> and \<^verbatim>\<open>NEW\<close> that exist for it (\<^verbatim>\<open>NEW\<close> for an insert, both for an
  update, \<^verbatim>\<open>OLD\<close> for a delete).
\<close>

datatype 'r tg_event = TgInsert 'r | TgUpdate 'r 'r | TgDelete 'r

subsection \<open>Tables \<^verbatim>\<open>media_folders\<close> and \<^verbatim>\<open>media_items\<close>\<close>

text \<open>
  The columns the trigger and the constraints read or write. A table is the list of
  its rows, in insertion order.
\<close>

record media_folder =
  mf_id :: uuid
  mf_slug :: string
  parent_id :: "uuid option"
  item_count :: int
  total_size :: int
  mf_updated_at :: timestamp

record media_item =
  mi_id :: uuid
  mi_size :: int
  folder_id :: "uuid option"
  content_hash :: string
  deleted_at :: "timestamp option"

record catalog =
  media_folders :: "media_folder list"
  media_items :: "media_item list"

definition empty_catalog :: catalog where
  "empty_catalog = \<lparr>media_folders = [], media_items = []\<rparr>"

text \<open>
  One \<^verbatim>\<open>UPDATE media_folders SET item_count = item_count + dc, total_size =
  total_size + ds, updated_at = NOW() WHERE id = k\<close>. With \<open>k\<close> \<^verbatim>\<open>NULL\<close> the
  \<^verbatim>\<open>WHERE\<close> clause matches no row.
\<close>

definition adjust_folder ::
  "timestamp \<Rightarrow> int \<Rightarrow> int \<Rightarrow> uuid option \<Rightarrow> media_folder list \<Rightarrow> pg_error + media_folder list" where
  "adjust_folder now dc ds k fs =
     (if \<exists>f \<in> set fs. Some (mf_id f) = k \<and>
            \<not> (int4_ok (item_count f + dc) \<and> int8_ok (total_size f + ds))
      then Inl NumericValueOutOfRange
      else Inr (map (\<lambda>f. if Some (mf_id f) = k
                          then f\<lparr>item_count := item_count f + dc,
                                 total_size := total_size f + ds,
                                 mf_updated_at := now\<rparr>
                          else f) fs))"

text \<open>
  \<^verbatim>\<open>update_folder_stats()\<close>, lines 191 to 225: the body of the trigger
  \<^verbatim>\<open>media_items_folder_stats\<close>, fired \<^verbatim>\<open>AFTER INSERT OR UPDATE OR DELETE ON
  media_items FOR EACH ROW\<close>.
\<close>

fun update_folder_stats ::
  "timestamp \<Rightarrow> media_item tg_event \<Rightarrow> media_folder list \<Rightarrow> pg_error + media_folder list" where
  "update_folder_stats now (TgInsert new) fs =
     adjust_folder now 1 (mi_size new) (folder_id new) fs"
| "update_folder_stats now (TgDelete old) fs =
     adjust_folder now (- 1) (- mi_size old) (folder_id old) fs"
| "update_folder_stats now (TgUpdate old new) fs =
     (if folder_id old \<noteq> folder_id new then
        bind_pg (if folder_id old \<noteq> None
                 then adjust_folder now (- 1) (- mi_size old) (folder_id old) fs
                 else Inr fs)
          (\<lambda>fs1. if folder_id new \<noteq> None
                  then adjust_folder now 1 (mi_size new) (folder_id new) fs1
                  else Inr fs1)
      else Inr fs)"

text \<open>The trigger fired once for each row a statement touched, in order.\<close>

fun fire_each ::
  "timestamp \<Rightarrow> media_item tg_event list \<Rightarrow> media_folder list \<Rightarrow> pg_error + media_folder list" where
  "fire_each now [] fs = Inr fs"
| "fire_each now (e # es) fs = bind_pg (update_folder_stats now e fs) (fire_each now es)"

text \<open>
  The statements on the two tables. A folder is created with the column defaults
  \<^verbatim>\<open>item_count = 0\<close> and \<^verbatim>\<open>total_size = 0\<close>. \<open>SetFolder\<close> is
  \<^verbatim>\<open>UPDATE media_items SET folder_id = .. WHERE id = ..\<close> (a move), \<open>SetDeletedAt\<close>
  is \<^verbatim>\<open>UPDATE media_items SET deleted_at = .. WHERE id = ..\<close> (soft delete with a
  timestamp, restore with \<^verbatim>\<open>NULL\<close>), \<open>DeleteItem\<close> is \<^verbatim>\<open>DELETE FROM media_items
  WHERE id = ..\<close> (hard delete).
\<close>

datatype statement =
    CreateFolder uuid string "uuid option"
  | InsertItem media_item
  | DeleteItem uuid
  | SetFolder uuid "uuid option"
  | SetDeletedAt uuid "timestamp option"

definition folder_exists :: "catalog \<Rightarrow> uuid option \<Rightarrow> bool" where
  "folder_exists s k \<longleftrightarrow> (case k of None \<Rightarrow> True | Some i \<Rightarrow> i \<in> mf_id ` set (media_folders s))"

text \<open>
  \<^verbatim>\<open>UPDATE media_items SET .. WHERE id = i\<close>: every matching row is replaced by
  \<open>upd\<close> of it, then the trigger runs for each replaced row with its \<^verbatim>\<open>OLD\<close> and
  \<^verbatim>\<open>NEW\<close>.
\<close>

definition update_items ::
  "timestamp \<Rightarrow> uuid \<Rightarrow> (media_item \<Rightarrow> media_item) \<Rightarrow> catalog \<Rightarrow> pg_error + catalog" where
  "update_items now i upd s =
     (let hit = filter (\<lambda>m. mi_id m = i) (media_items s)
      in bind_pg (fire_each now (map (\<lambda>m. TgUpdate m (upd m)) hit) (media_folders s))
           (\<lambda>fs. Inr \<lparr>media_folders = fs,
                      media_items = map (\<lambda>m. if mi_id m = i then upd m else m) (media_items s)\<rparr>))"

text \<open>
  One statement: the constraints of the schema first (primary keys,
  \<^verbatim>\<open>UNIQUE(content_hash)\<close>, \<^verbatim>\<open>UNIQUE(parent_id, slug)\<close> where a
  \<^verbatim>\<open>NULL\<close> parent never conflicts, the foreign keys to \<^verbatim>\<open>media_folders\<close>, the
  range of \<^verbatim>\<open>size BIGINT\<close>), then the row change and its trigger.
\<close>

fun exec :: "timestamp \<Rightarrow> catalog \<Rightarrow> statement \<Rightarrow> pg_error + catalog" where
  "exec now s (CreateFolder k slug parent) =
     (if k \<in> mf_id ` set (media_folders s) then Inl UniqueViolation
      else if parent \<noteq> None \<and>
              (\<exists>f \<in> set (media_folders s). parent_id f = parent \<and> mf_slug f = slug)
      then Inl UniqueViolation
      else if \<not> folder_exists s parent then Inl ForeignKeyViolation
      else Inr (s\<lparr>media_folders := media_folders s @
                  [\<lparr>mf_id = k, mf_slug = slug, parent_id = parent, item_count = 0,
                    total_size = 0, mf_updated_at = now\<rparr>]\<rparr>))"
| "exec now s (InsertItem new) =
     (if \<not> int8_ok (mi_size new) then Inl NumericValueOutOfRange
      else if mi_id new \<in> mi_id ` set (media_items s) then Inl UniqueViolation
      else if content_hash new \<in> content_hash ` set (media_items s) then Inl UniqueViolation
      else if \<not> folder_exists s (folder_id new) then Inl ForeignKeyViolation
      else bind_pg (update_folder_stats now (TgInsert new) (media_folders s))
             (\<lambda>fs. Inr \<lparr>media_folders = fs, media_items = media_items s @ [new]\<rparr>))"
| "exec now s (DeleteItem i) =
     (let hit = filter (\<lambda>m. mi_id m = i) (media_items s)
      in bind_pg (fire_each now (map TgDelete hit) (media_folders s))
           (\<lambda>fs. Inr \<lparr>media_folders = fs,
                      media_items = filter (\<lambda>m. mi_id m \<noteq> i) (media_items s)\<rparr>))"
| "exec now s (SetFolder i k) =
     (if (\<exists>m \<in> set (media_items s). mi_id m = i) \<and> \<not> folder_exists s k
      then Inl ForeignKeyViolation
      else update_items now i (\<lambda>m. m\<lparr>folder_id := k\<rparr>) s)"
| "exec now s (SetDeletedAt i d) = update_items now i (\<lambda>m. m\<lparr>deleted_at := d\<rparr>) s"

text \<open>
  A history of statements, each with the clock reading \<^verbatim>\<open>NOW()\<close> at which it
  runs. A statement that raises is rolled back: the database is as before it.
\<close>

fun run :: "catalog \<Rightarrow> (timestamp \<times> statement) list \<Rightarrow> catalog" where
  "run s [] = s"
| "run s ((now, st) # rest) =
     run (case exec now s st of Inl e \<Rightarrow> s | Inr s' \<Rightarrow> s') rest"

text \<open>
  The rows of \<^verbatim>\<open>media_items\<close> directly in a folder, and those of them that are not
  soft-deleted; the row of a folder and of an item by primary key.
\<close>

definition rows_in :: "catalog \<Rightarrow> uuid \<Rightarrow> media_item list" where
  "rows_in s k = filter (\<lambda>m. folder_id m = Some k) (media_items s)"

definition live_rows_in :: "catalog \<Rightarrow> uuid \<Rightarrow> media_item list" where
  "live_rows_in s k = filter (\<lambda>m. deleted_at m = None) (rows_in s k)"

definition find_folder :: "catalog \<Rightarrow> uuid \<Rightarrow> media_folder option" where
  "find_folder s k = find (\<lambda>f. mf_id f = k) (media_folders s)"

definition find_item :: "catalog \<Rightarrow> uuid \<Rightarrow> media_item option" where
  "find_item s i = find (\<lambda>m. mi_id m = i) (media_items s)"

subsection \<open>Accounting for the folder statistics\<close>

text \<open>
  What one trigger event means for the folder with id \<open>k\<close>: by how much the number of
  rows directly in the folder, and the sum of their sizes, move. \<open>shifted\<close> relates a
  folder row before and after such a move of its two counters.
\<close>

definition in_folder :: "media_item \<Rightarrow> uuid \<Rightarrow> int" where
  "in_folder m k = (if folder_id m = Some k then 1 else 0)"

fun ev_count :: "media_item tg_event \<Rightarrow> uuid \<Rightarrow> int" where
  "ev_count (TgInsert new) k = in_folder new k"
| "ev_count (TgDelete old) k = - in_folder old k"
| "ev_count (TgUpdate old new) k =
     (if folder_id old = folder_id new then 0 else in_folder new k - in_folder old k)"

fun ev_size :: "media_item tg_event \<Rightarrow> uuid \<Rightarrow> int" where
  "ev_size (TgInsert new) k = in_folder new k * mi_size new"
| "ev_size (TgDelete old) k = - (in_folder old k * mi_size old)"
| "ev_size (TgUpdate old new) k =
     (if folder_id old = folder_id new then 0
      else in_folder new k * mi_size new - in_folder old k * mi_size old)"

definition shifted :: "int \<Rightarrow> int \<Rightarrow> media_folder \<Rightarrow> media_folder \<Rightarrow> bool" where
  "shifted dc ds f f' \<longleftrightarrow>
     mf_id f' = mf_id f \<and> mf_slug f' = mf_slug f \<and> parent_id f' = parent_id f \<and>
     item_count f' = item_count f + dc \<and> total_size f' = total_size f + ds"

text \<open>
  The foreign key of \<^verbatim>\<open>media_items.folder_id\<close> holds (\<open>fk_ok\<close>), and every folder row
  carries the aggregate over the rows of \<^verbatim>\<open>media_items\<close> directly in it, soft-deleted
  rows included (\<open>stats_ok\<close>).
\<close>

definition fk_ok :: "catalog \<Rightarrow> bool" where
  "fk_ok s \<longleftrightarrow> (\<forall>m \<in> set (media_items s). folder_exists s (folder_id m))"

definition stats_ok :: "catalog \<Rightarrow> bool" where
  "stats_ok s \<longleftrightarrow>
     (\<forall>f \<in> set (media_folders s).
        item_count f = int (length (rows_in s (mf_id f))) \<and>
        total_size f = sum_list (map mi_size (rows_in s (mf_id f))))"

text \<open>
  A concrete history: two nested folders, a 2 MB item put into the inner one and then
  soft-deleted.
\<close>

definition history0 :: "(timestamp \<times> statement) list" where
  "history0 =
     [(1, CreateFolder 1 ''photos'' None),
      (2, CreateFolder 2 ''2024'' (Some 1)),
      (3, InsertItem \<lparr>mi_id = 10, mi_size = 2000000, folder_id = Some 2,
                      content_hash = ''9f86d081'', deleted_at = None\<rparr>),
      (4, SetDeletedAt 10 (Some 4))]"

text \<open>
  A concrete catalog: folder 1 with the subfolder 2, another root folder 3, and one item
  of 2000000 bytes in folder 2.
\<close>

definition item0 :: media_item where
  "item0 = \<lparr>mi_id = 10, mi_size = 2000000, folder_id = Some 2,
             content_hash = ''9f86d081'', deleted_at = None\<rparr>"

definition catalog0 :: catalog where
  "catalog0 =
     \<lparr>media_folders =
        [\<lparr>mf_id = 1, mf_slug = ''photos'', parent_id = None, item_count = 0,
          total_size = 0, mf_updated_at = 1\<rparr>,
         \<lparr>mf_id = 2, mf_slug = ''2024'', parent_id = Some 1, item_count = 1,
          total_size = 2000000, mf_updated_at = 4\<rparr>,
         \<lparr>mf_id = 3, mf_slug = ''archive'', parent_id = None, item_count = 0,
          total_size = 0, mf_updated_at = 3\<rparr>],
      media_items = [item0]\<rparr>"

text \<open>\<open>catalog0\<close> after item 10 moved from folder 2 to folder 3 at clock reading 9.\<close>

definition catalog1 :: catalog where
  "catalog1 =
     \<lparr>media_folders =
        [\<lparr>mf_id = 1, mf_slug = ''photos'', parent_id = None, item_count = 0,
          total_size = 0, mf_updated_at = 1\<rparr>,
         \<lparr>mf_id = 2, mf_slug = ''2024'', parent_id = Some 1, item_count = 0,
          total_size = 0, mf_updated_at = 9\<rparr>,
         \<lparr>mf_id = 3, mf_slug = ''archive'', parent_id = None, item_count = 1,
          total_size = 2000000, mf_updated_at = 9\<rparr>],
      media_items = [item0\<lparr>folder_id := Some 3\<rparr>]\<rparr>"

subsection \<open>Tables \<^verbatim>\<open>media_tags\<close> and \<^verbatim>\<open>media_item_tags\<close>\<close>

record media_tag =
  mt_id :: uuid
  mt_name :: string
  mt_slug :: string
  usage_count :: int

record media_item_tag =
  media_id :: uuid
  tag_id :: uuid

record tagging =
  media_tags :: "media_tag list"
  media_item_tags :: "media_item_tag list"

definition empty_tagging :: tagging where
  "empty_tagging = \<lparr>media_tags = [], media_item_tags = []\<rparr>"

text \<open>\<^verbatim>\<open>UPDATE media_tags SET usage_count = usage_count + d WHERE id = k\<close>.\<close>

definition adjust_usage :: "int \<Rightarrow> uuid \<Rightarrow> media_tag list \<Rightarrow> pg_error + media_tag list" where
  "adjust_usage d k ts =
     (if \<exists>t \<in> set ts. mt_id t = k \<and> \<not> int4_ok (usage_count t + d)
      then Inl NumericValueOutOfRange
      else Inr (map (\<lambda>t. if mt_id t = k then t\<lparr>usage_count := usage_count t + d\<rparr> else t) ts))"

text \<open>
  \<^verbatim>\<open>update_tag_usage()\<close>, lines 234 to 244. The function has no branch for
  \<^verbatim>\<open>UPDATE\<close>, and its trigger \<^verbatim>\<open>media_item_tags_usage\<close> is declared
  \<^verbatim>\<open>AFTER INSERT OR DELETE\<close> only.
\<close>

fun update_tag_usage :: "media_item_tag tg_event \<Rightarrow> media_tag list \<Rightarrow> pg_error + media_tag list" where
  "update_tag_usage (TgInsert new) ts = adjust_usage 1 (tag_id new) ts"
| "update_tag_usage (TgDelete old) ts = adjust_usage (- 1) (tag_id old) ts"
| "update_tag_usage (TgUpdate old new) ts = Inr ts"

fun fire_each_tag :: "media_item_tag tg_event list \<Rightarrow> media_tag list \<Rightarrow> pg_error + media_tag list" where
  "fire_each_tag [] ts = Inr ts"
| "fire_each_tag (e # es) ts = bind_pg (update_tag_usage e ts) (fire_each_tag es)"

text \<open>
  The statements on the two tables. A tag is created with the column default
  \<^verbatim>\<open>usage_count = 0\<close>. \<open>DeleteItemTags P\<close> is \<^verbatim>\<open>DELETE FROM media_item_tags
  WHERE P\<close>; the delete that \<^verbatim>\<open>ON DELETE CASCADE\<close> issues for a removed media item
  is the instance \<open>P r = (media_id r = i)\<close>. The foreign key from \<open>media_id\<close> to
  \<^verbatim>\<open>media_items\<close> only makes more inserts fail; the model lets them through.
\<close>

datatype tag_statement =
    CreateTag uuid string string
  | InsertItemTag media_item_tag
  | DeleteItemTags "media_item_tag \<Rightarrow> bool"

fun exec_tag :: "tagging \<Rightarrow> tag_statement \<Rightarrow> pg_error + tagging" where
  "exec_tag s (CreateTag k name slug) =
     (if k \<in> mt_id ` set (media_tags s) \<or> name \<in> mt_name ` set (media_tags s) \<or>
         slug \<in> mt_slug ` set (media_tags s)
      then Inl UniqueViolation
      else Inr (s\<lparr>media_tags := media_tags s @
                  [\<lparr>mt_id = k, mt_name = name, mt_slug = slug, usage_count = 0\<rparr>]\<rparr>))"
| "exec_tag s (InsertItemTag new) =
     (if new \<in> set (media_item_tags s) then Inl UniqueViolation
      else if tag_id new \<notin> mt_id ` set (media_tags s) then Inl ForeignKeyViolation
      else bind_pg (update_tag_usage (TgInsert new) (media_tags s))
             (\<lambda>ts. Inr \<lparr>media_tags = ts, media_item_tags = media_item_tags s @ [new]\<rparr>))"
| "exec_tag s (DeleteItemTags P) =
     bind_pg (fire_each_tag (map TgDelete (filter P (media_item_tags s))) (media_tags s))
       (\<lambda>ts. Inr \<lparr>media_tags = ts,
                  media_item_tags = filter (\<lambda>r. \<not> P r) (media_item_tags s)\<rparr>)"

fun run_tag :: "tagging \<Rightarrow> tag_statement list \<Rightarrow> tagging" where
  "run_tag s [] = s"
| "run_tag s (st # rest) = run_tag (case exec_tag s st of Inl e \<Rightarrow> s | Inr s' \<Rightarrow> s') rest"

definition tag_rows :: "tagging \<Rightarrow> uuid \<Rightarrow> media_item_tag list" where
  "tag_rows s k = filter (\<lambda>r. tag_id r = k) (media_item_tags s)"

text \<open>What one trigger event adds to the number of rows that reference tag \<open>k\<close>.\<close>

fun tag_delta :: "media_item_tag tg_event \<Rightarrow> uuid \<Rightarrow> int" where
  "tag_delta (TgInsert new) k = (if tag_id new = k then 1 else 0)"
| "tag_delta (TgDelete old) k = (if tag_id old = k then - 1 else 0)"
| "tag_delta (TgUpdate old new) k = 0"

definition tags_ok :: "tagging \<Rightarrow> bool" where
  "tags_ok s \<longleftrightarrow>
     (\<forall>r \<in> set (media_item_tags s). tag_id r \<in> mt_id ` set (media_tags s)) \<and>
     (\<forall>t \<in> set (media_tags s). usage_count t = int (length (tag_rows s (mt_id t))))"

text \<open>
  A concrete history: two tags; items 10 and 11 tagged with tag 1, item 10 also with
  tag 2; then every association of item 10 removed, as the cascade of its deletion does.
\<close>

definition tag_history0 :: "tag_statement list" where
  "tag_history0 =
     [CreateTag 1 ''Holiday'' ''holiday'', CreateTag 2 ''Beach'' ''beach'',
      InsertItemTag \<lparr>media_id = 10, tag_id = 1\<rparr>,
      InsertItemTag \<lparr>media_id = 11, tag_id = 1\<rparr>,
      InsertItemTag \<lparr>media_id = 10, tag_id = 2\<rparr>,
      DeleteItemTags (\<lambda>r. media_id r = 10)]"

subsection \<open>Chunked uploads and the sweep of expired ones\<close>

text \<open>
  The tables \<^verbatim>\<open>media_chunked_uploads\<close> and \<^verbatim>\<open>media_upload_chunks\<close>, with the
  columns the sweep and the foreign key between them read. \<open>temp_files\<close> is the
  temporary storage outside the database: the paths at which an artifact exists. The
  column \<open>temp_path\<close> of an upload names its artifact there.
\<close>

record chunked_upload =
  cu_id :: uuid
  temp_path :: string
  expires_at :: timestamp
  completed_at :: "timestamp option"

record upload_chunk =
  upload_id :: uuid
  chunk_index :: int
  received :: bool

record upload_store =
  media_chunked_uploads :: "chunked_upload list"
  media_upload_chunks :: "upload_chunk list"
  temp_files :: "string list"

text \<open>The \<^verbatim>\<open>WHERE\<close> clause of the sweep: \<^verbatim>\<open>expires_at < NOW() AND completed_at IS NULL\<close>.\<close>

definition expired :: "timestamp \<Rightarrow> chunked_upload \<Rightarrow> bool" where
  "expired now u \<longleftrightarrow> expires_at u < now \<and> completed_at u = None"

text \<open>
  \<^verbatim>\<open>cleanup_expired_uploads()\<close>, lines 253 to 263: one \<^verbatim>\<open>DELETE\<close> on
  \<^verbatim>\<open>media_chunked_uploads\<close>, whose rows in \<^verbatim>\<open>media_upload_chunks\<close> go with them
  (\<^verbatim>\<open>ON DELETE CASCADE\<close>), and \<^verbatim>\<open>ROW_COUNT\<close> returned as an \<^verbatim>\<open>INTEGER\<close>. The
  function has no statement that reaches the temporary storage.
\<close>

definition cleanup_expired_uploads :: "timestamp \<Rightarrow> upload_store \<Rightarrow> pg_error + (int \<times> upload_store)" where
  "cleanup_expired_uploads now s =
     (let gone = filter (expired now) (media_chunked_uploads s);
          deleted_count = int (length gone)
      in if \<not> int4_ok deleted_count then Inl NumericValueOutOfRange
         else Inr (deleted_count,
                   s\<lparr>media_chunked_uploads :=
                        filter (\<lambda>u. \<not> expired now u) (media_chunked_uploads s),
                     media_upload_chunks :=
                        filter (\<lambda>c. upload_id c \<notin> cu_id ` set gone) (media_upload_chunks s)\<rparr>))"

text \<open>
  A concrete store at clock reading 7200: upload 7 expired at 3600 and was never
  completed; upload 8 expired at 3600 too but was completed at 3599; upload 9 expires
  at 9000.
\<close>

definition store0 :: upload_store where
  "store0 =
     \<lparr>media_chunked_uploads =
        [\<lparr>cu_id = 7, temp_path = ''tmp/u7'', expires_at = 3600, completed_at = None\<rparr>,
         \<lparr>cu_id = 8, temp_path = ''tmp/u8'', expires_at = 3600, completed_at = Some 3599\<rparr>,
         \<lparr>cu_id = 9, temp_path = ''tmp/u9'', expires_at = 9000, completed_at = None\<rparr>],
      media_upload_chunks =
        [\<lparr>upload_id = 7, chunk_index = 0, received = True\<rparr>,
         \<lparr>upload_id = 8, chunk_index = 0, received = True\<rparr>,
         \<lparr>upload_id = 9, chunk_index = 0, received = False\<rparr>],
      temp_files = [''tmp/u7'', ''tmp/u8'', ''tmp/u9'']\<rparr>"

definition store1 :: upload_store where
  "store1 =
     \<lparr>media_chunked_uploads =
        [\<lparr>cu_id = 8, temp_path = ''tmp/u8'', expires_at = 3600, completed_at = Some 3599\<rparr>,
         \<lparr>cu_id = 9, temp_path = ''tmp/u9'', expires_at = 9000, completed_at = None\<rparr>],
      media_upload_chunks =
        [\<lparr>upload_id = 8, chunk_index = 0, received = True\<rparr>,
         \<lparr>upload_id = 9, chunk_index = 0, received = False\<rparr>],
      temp_files = [''tmp/u7'', ''tmp/u8'', ''tmp/u9'']\<rparr>"

subsection \<open>Ingestion with deduplication\<close>

type_synonym byte = char

text \<open>
  Modelled from the spec: the server's ingestion path (hash the content, look for an
  existing item, otherwise insert the row) is not among the sources; only the table it
  writes to is, with its \<^verbatim>\<open>UNIQUE(content_hash)\<close>. The spec, section 4.3 (Complete)
  and section 7: if the hash matches an existing non-deleted MediaItem, the existing
  item is returned and no MediaItem is created; otherwise a MediaItem is created and the
  folder statistics are incremented. \<open>digest\<close> is the content hash of section 4.1, a
  function of the bytes; \<open>fresh\<close> is the id allocated for a new item and \<open>folder\<close>
  the target folder. The insert is \<open>exec\<close> of the schema, constraints and trigger
  included.
\<close>

definition ingest ::
  "(byte list \<Rightarrow> string) \<Rightarrow> timestamp \<Rightarrow> catalog \<Rightarrow> uuid \<Rightarrow> uuid option \<Rightarrow> byte list
     \<Rightarrow> pg_error + (uuid \<times> catalog)" where
  "ingest digest now s fresh folder content =
     (case find (\<lambda>m. content_hash m = digest content \<and> deleted_at m = None) (media_items s) of
        Some m \<Rightarrow> Inr (mi_id m, s)
      | None \<Rightarrow>
          bind_pg (exec now s (InsertItem \<lparr>mi_id = fresh, mi_size = int (length content),
                     folder_id = folder, content_hash = digest content, deleted_at = None\<rparr>))
            (\<lambda>s'. Inr (fresh, s')))"

text \<open>A stand-in digest for the concrete runs: the content itself, as text.\<close>

definition digest0 :: "byte list \<Rightarrow> string" where
  "digest0 content = content"

text \<open>\<open>catalog0\<close> after the five bytes \<open>''hello''\<close> were ingested into folder 3 as item 11.\<close>

definition catalog2 :: catalog where
  "catalog2 =
     \<lparr>media_folders =
        [\<lparr>mf_id = 1, mf_slug = ''photos'', parent_id = None, item_count = 0,
          total_size = 0, mf_updated_at = 1\<rparr>,
         \<lparr>mf_id = 2, mf_slug = ''2024'', parent_id = Some 1, item_count = 1,
          total_size = 2000000, mf_updated_at = 4\<rparr>,
         \<lparr>mf_id = 3, mf_slug = ''archive'', parent_id = None, item_count = 1,
          total_size = 5, mf_updated_at = 5\<rparr>],
      media_items = [item0, \<lparr>mi_id = 11, mi_size = 5, folder_id = Some 3,
                        content_hash = ''hello'', deleted_at = None\<rparr>]\<rparr>"

subsection \<open>The upload client: files and configuration\<close>

text \<open>
  JavaScript numbers that hold sizes and indices are natural numbers here: a
  \<^verbatim>\<open>File.size\<close> is a non-negative integer below \<open>2^53\<close>, where the double
  arithmetic of the client is exact. A file is its name and its bytes;
  \<^verbatim>\<open>file.size\<close> is the number of bytes. \<^verbatim>\<open>RustMedia.Upload.config\<close> is
  \<^verbatim>\<open>window.RUSTMEDIA_CONFIG || {}\<close>: each of its properties may be
  \<^verbatim>\<open>undefined\<close>, which is \<open>None\<close>.
\<close>

record js_file =
  file_name :: string
  file_bytes :: "byte list"

definition file_size :: "js_file \<Rightarrow> nat" where
  "file_size f = length (file_bytes f)"

record upload_config =
  maxFileSize :: "nat option"
  chunkSize :: "nat option"
  allowedExtensions :: "string list option"

text \<open>
  \<^verbatim>\<open>String.prototype.split\<close> with a one-character separator (the result is never
  empty), and \<^verbatim>\<open>toLowerCase\<close> on the letters A to Z; letters outside ASCII are
  left as they are.
\<close>

fun js_split :: "char \<Rightarrow> string \<Rightarrow> string list" where
  "js_split sep [] = [[]]"
| "js_split sep (c # cs) =
     (if c = sep then [] # js_split sep cs
      else (case js_split sep cs of [] \<Rightarrow> [[c]] | seg # segs \<Rightarrow> (c # seg) # segs))"

definition lower_char :: "char \<Rightarrow> char" where
  "lower_char c =
     (case map_of (zip ''ABCDEFGHIJKLMNOPQRSTUVWXYZ'' ''abcdefghijklmnopqrstuvwxyz'') c of
        None \<Rightarrow> c | Some d \<Rightarrow> d)"

definition toLowerCase :: "string \<Rightarrow> string" where
  "toLowerCase s = map lower_char s"

text \<open>\<^verbatim>\<open>file.name.split('.').pop().toLowerCase()\<close>, line 363.\<close>

definition file_ext :: "js_file \<Rightarrow> string" where
  "file_ext f = toLowerCase (last (js_split CHR ''.'' (file_name f)))"

text \<open>
  \<^verbatim>\<open>validateFile\<close>, lines 355 to 370 (the toast shown on a rejection is left
  out). \<^verbatim>\<open>file.size > undefined\<close> is \<^verbatim>\<open>false\<close>; an
  \<^verbatim>\<open>allowedExtensions\<close> array is truthy even when empty.
\<close>

definition validateFile :: "upload_config \<Rightarrow> js_file \<Rightarrow> bool" where
  "validateFile cfg f =
     (if (case maxFileSize cfg of None \<Rightarrow> False | Some m \<Rightarrow> file_size f > m) then False
      else if (case allowedExtensions cfg of None \<Rightarrow> False
               | Some exts \<Rightarrow> file_ext f \<notin> set exts) then False
      else True)"

subsection \<open>The upload client: chunked upload\<close>

text \<open>
  The requests of \<^verbatim>\<open>RustMedia.API\<close> that \<^verbatim>\<open>uploadChunked\<close> sends: the body of
  \<^verbatim>\<open>initChunkedUpload\<close> (filename, total_size, chunk_size, total_chunks, folder_id),
  \<^verbatim>\<open>uploadChunk(uploadId, chunkIndex, data)\<close> and
  \<^verbatim>\<open>completeChunkedUpload(uploadId)\<close>. The server is what it answers: the
  \<^verbatim>\<open>upload_id\<close> of the init response (\<open>None\<close> when that request throws),
  whether the request for chunk \<open>i\<close> resolves, and whether the completion does.
\<close>

datatype api_call =
    InitChunkedUpload string nat nat nat "string option"
  | UploadChunk string nat "byte list"
  | CompleteChunkedUpload string

record server =
  init_reply :: "string option"
  chunk_ok :: "nat \<Rightarrow> bool"
  complete_ok :: bool

text \<open>\<^verbatim>\<open>Blob.slice(start, end)\<close> for non-negative bounds.\<close>

definition slice :: "byte list \<Rightarrow> nat \<Rightarrow> nat \<Rightarrow> byte list" where
  "slice bs start end' = take (end' - start) (drop start bs)"

text \<open>\<^verbatim>\<open>this.config.chunkSize || 5 * 1024 * 1024\<close>: \<^verbatim>\<open>undefined\<close> and 0 are falsy.\<close>

definition effective_chunk_size :: "upload_config \<Rightarrow> nat" where
  "effective_chunk_size cfg =
     (case chunkSize cfg of None \<Rightarrow> 5 * 1024 * 1024
      | Some c \<Rightarrow> if c = 0 then 5 * 1024 * 1024 else c)"

text \<open>\<^verbatim>\<open>Math.ceil(item.file.size / chunkSize)\<close>, line 497.\<close>

definition total_chunks :: "nat \<Rightarrow> nat \<Rightarrow> nat" where
  "total_chunks fsize csize = nat \<lceil>real fsize / real csize\<rceil>"

text \<open>The byte range of chunk \<open>i\<close>, lines 512 to 514.\<close>

definition chunk_start :: "nat \<Rightarrow> nat \<Rightarrow> nat" where
  "chunk_start csize i = i * csize"

definition chunk_end :: "nat \<Rightarrow> nat \<Rightarrow> nat \<Rightarrow> nat" where
  "chunk_end csize fsize i = min (chunk_start csize i + csize) fsize"

definition chunk_of :: "js_file \<Rightarrow> nat \<Rightarrow> nat \<Rightarrow> byte list" where
  "chunk_of f csize i =
     slice (file_bytes f) (chunk_start csize i) (chunk_end csize (file_size f) i)"

text \<open>
  The loop of lines 511 to 520, from index \<open>i\<close> on: the calls made, and whether the
  loop ran to its end. A request that does not resolve throws out of the loop. The
  progress shown after each chunk is left out.
\<close>

function upload_chunks ::
  "server \<Rightarrow> string \<Rightarrow> js_file \<Rightarrow> nat \<Rightarrow> nat \<Rightarrow> nat \<Rightarrow> api_call list \<times> bool" where
  "upload_chunks srv uid f csize n i =
     (if i < n then
        (if chunk_ok srv i then
           (case upload_chunks srv uid f csize n (i + 1) of
              (calls, done) \<Rightarrow> (UploadChunk uid i (chunk_of f csize i) # calls, done))
         else ([UploadChunk uid i (chunk_of f csize i)], False))
      else ([], True))"
  by pat_completeness auto
termination
  by (relation "measure (\<lambda>(srv, uid, f, csize, n, i). n - i)") auto

text \<open>
  \<^verbatim>\<open>uploadChunked\<close>, lines 495 to 528: the calls made, in order, and whether the
  upload resolved.
\<close>

definition uploadChunked ::
  "upload_config \<Rightarrow> server \<Rightarrow> js_file \<Rightarrow> string option \<Rightarrow> api_call list \<times> bool" where
  "uploadChunked cfg srv f folderId =
     (let csize = effective_chunk_size cfg;
          n = total_chunks (file_size f) csize;
          init = InitChunkedUpload (file_name f) (file_size f) csize n folderId
      in case init_reply srv of
           None \<Rightarrow> ([init], False)
         | Some uid \<Rightarrow>
             (case upload_chunks srv uid f csize n 0 of
                (calls, done) \<Rightarrow>
                  if done then (init # calls @ [CompleteChunkedUpload uid], complete_ok srv)
                  else (init # calls, False)))"

text \<open>The whole conversation of \<^verbatim>\<open>uploadChunked\<close> with a server that accepts everything.\<close>

definition full_conversation :: "upload_config \<Rightarrow> string \<Rightarrow> js_file \<Rightarrow> string option \<Rightarrow> api_call list" where
  "full_conversation cfg uid f folderId =
     InitChunkedUpload (file_name f) (file_size f) (effective_chunk_size cfg)
       (total_chunks (file_size f) (effective_chunk_size cfg)) folderId
     # map (\<lambda>i. UploadChunk uid i (chunk_of f (effective_chunk_size cfg) i))
         [0 ..< total_chunks (file_size f) (effective_chunk_size cfg)]
     @ [CompleteChunkedUpload uid]"

text \<open>A concrete upload: ten bytes in chunks of four, to a server that accepts everything.\<close>

definition file0 :: js_file where
  "file0 = \<lparr>file_name = ''notes.TXT'', file_bytes = ''0123456789''\<rparr>"

definition config0 :: upload_config where
  "config0 = \<lparr>maxFileSize = Some 10, chunkSize = Some 4, allowedExtensions = Some [''txt'', ''png'']\<rparr>"

definition server0 :: server where
  "server0 = \<lparr>init_reply = Some ''u1'', chunk_ok = (\<lambda>i. True), complete_ok = True\<rparr>"

subsection \<open>The API client and the folder deletion flow\<close>

text \<open>
  What \<^verbatim>\<open>fetch\<close> gives \<^verbatim>\<open>RustMedia.API.request\<close>: a rejection (a network
  error, with its message) or a response. Of a response the client reads
  \<^verbatim>\<open>response.ok\<close>, \<^verbatim>\<open>response.statusText\<close> and the body through
  \<^verbatim>\<open>response.json()\<close>, which rejects with the parser's message when the body is not
  JSON, and of a JSON error body the property \<^verbatim>\<open>message\<close> (\<open>None\<close> when absent).
\<close>

datatype body = NotJson string | Json "string option"

record http_response =
  resp_ok :: bool
  resp_status_text :: string
  resp_body :: body

datatype fetch_outcome = FetchRejected string | Responded http_response

text \<open>\<^verbatim>\<open>a || b\<close> on a message: \<^verbatim>\<open>undefined\<close> and the empty string are falsy.\<close>

definition or_default :: "string option \<Rightarrow> string \<Rightarrow> string" where
  "or_default m d = (case m of None \<Rightarrow> d | Some t \<Rightarrow> if t = [] then d else t)"

text \<open>
  \<^verbatim>\<open>RustMedia.API.request\<close>, admin.js lines 14 to 30: \<open>Inl\<close> is the message of the
  \<^verbatim>\<open>Error\<close> thrown, \<open>Inr\<close> the resolved JSON value.
\<close>

fun request :: "fetch_outcome \<Rightarrow> string + string option" where
  "request (FetchRejected msg) = Inl msg"
| "request (Responded r) =
     (if \<not> resp_ok r then
        Inl (or_default (case resp_body r of NotJson e \<Rightarrow> Some (resp_status_text r)
                         | Json m \<Rightarrow> m) ''Request failed'')
      else (case resp_body r of NotJson e \<Rightarrow> Inl e | Json m \<Rightarrow> Inr m))"

text \<open>
  The URL of \<^verbatim>\<open>RustMedia.API.deleteFolder(id, force = false)\<close>, admin.js lines 89
  to 93: \<^verbatim>\<open>baseUrl\<close> followed by \<^verbatim>\<open>/folders/${id}?force=${force}\<close>, requested
  with the method \<^verbatim>\<open>DELETE\<close>.
\<close>

definition deleteFolder_url :: "string \<Rightarrow> bool \<Rightarrow> string" where
  "deleteFolder_url folderId force =
     ''/api/media'' @ ''/folders/'' @ folderId @ ''?force='' @ (if force then ''true'' else ''false'')"

text \<open>\<^verbatim>\<open>String.prototype.includes\<close>.\<close>

fun js_includes :: "string \<Rightarrow> string \<Rightarrow> bool" where
  "js_includes [] needle = (needle = [])"
| "js_includes (c # cs) needle = (prefix needle (c # cs) \<or> js_includes cs needle)"

text \<open>
  What the flow does, in order: a \<^verbatim>\<open>confirm\<close> prompt, a call of
  \<^verbatim>\<open>RustMedia.API.deleteFolder\<close> with its \<^verbatim>\<open>force\<close> argument and the URL
  requested, a toast, a page reload. What it is given: the user's answers to the two
  prompts and the outcomes of the two requests, each read only if the flow gets there.
\<close>

datatype effect =
    Confirm string
  | ApiDeleteFolder string bool string
  | ToastSuccess string
  | ToastError string
  | Reload

record delete_env =
  answer1 :: bool
  outcome1 :: fetch_outcome
  answer2 :: bool
  outcome2 :: fetch_outcome

text \<open>
  \<^verbatim>\<open>RustMedia.Folders.deleteFolder\<close>, settings.js lines 707 to 729. The first call
  passes no \<^verbatim>\<open>force\<close> argument, so the parameter default \<^verbatim>\<open>false\<close> applies.
\<close>

definition deleteFolder :: "string \<Rightarrow> delete_env \<Rightarrow> effect list" where
  "deleteFolder folderId env =
     Confirm ''Are you sure you want to delete this folder?'' #
     (if \<not> answer1 env then []
      else ApiDeleteFolder folderId False (deleteFolder_url folderId False) #
        (case request (outcome1 env) of
           Inr j \<Rightarrow> [ToastSuccess ''Folder deleted'', Reload]
         | Inl msg \<Rightarrow>
             if js_includes msg ''not empty'' then
               Confirm ''This folder is not empty. Delete anyway (will also delete contents)?'' #
               (if answer2 env then
                  ApiDeleteFolder folderId True (deleteFolder_url folderId True) #
                  (case request (outcome2 env) of
                     Inr j \<Rightarrow> [ToastSuccess ''Folder and contents deleted'', Reload]
                   | Inl msg2 \<Rightarrow> [ToastError msg2])
                else [])
             else [ToastError msg]))"

text \<open>The delete requests among the effects, as pairs of \<^verbatim>\<open>force\<close> and URL.\<close>

fun delete_requests :: "effect list \<Rightarrow> (bool \<times> string) list" where
  "delete_requests [] = []"
| "delete_requests (ApiDeleteFolder i force url # es) = (force, url) # delete_requests es"
| "delete_requests (e # es) = delete_requests es"

text \<open>
  A concrete run: the user confirms twice; the server answers the first request with
  409 and a JSON error, the second with success.
\<close>

definition delete_env0 :: delete_env where
  "delete_env0 =
     \<lparr>answer1 = True,
      outcome1 = Responded \<lparr>resp_ok = False, resp_status_text = ''Conflict'',
                             resp_body = Json (Some ''Folder is not empty'')\<rparr>,
      answer2 = True,
      outcome2 = Responded \<lparr>resp_ok = True, resp_status_text = ''OK'', resp_body = Json None\<rparr>\<rparr>"

subsection \<open>The upload client: the queue\<close>

text \<open>
  A queue item is a JavaScript object that the queue and the running
  \<^verbatim>\<open>processQueue\<close> call share; \<open>qi_ref\<close> is its identity, a counter value taken
  when \<^verbatim>\<open>addFiles\<close> creates it. The other fields are those of lines 340 to 346.
\<close>

datatype status = Pending | Uploading | Processing | Complete | Error

record queue_item =
  qi_ref :: nat
  item_id :: string
  item_file :: js_file
  status :: status
  progress :: nat
  error :: "string option"

text \<open>
  The state of \<^verbatim>\<open>RustMedia.Upload\<close>: the queue, the flag \<^verbatim>\<open>uploading\<close>, and
  the \<^verbatim>\<open>processQueue\<close> calls suspended at their \<^verbatim>\<open>await\<close>, each with the item it
  holds (\<open>running\<close>). \<open>started\<close> records every upload begun: the item, its file and
  whether the chunked path was taken. \<open>next_ref\<close> is the identity for the next object.
\<close>

record upload_state =
  queue :: "queue_item list"
  uploading :: bool
  running :: "nat list"
  started :: "(nat \<times> js_file \<times> bool) list"
  next_ref :: nat

definition initial_state :: upload_state where
  "initial_state = \<lparr>queue = [], uploading = False, running = [], started = [], next_ref = 0\<rparr>"

text \<open>An assignment to a field of the object \<open>r\<close>, seen by the queue if the object is in it.\<close>

definition set_item :: "nat \<Rightarrow> (queue_item \<Rightarrow> queue_item) \<Rightarrow> queue_item list \<Rightarrow> queue_item list" where
  "set_item r g q = map (\<lambda>i. if qi_ref i = r then g i else i) q"

text \<open>\<^verbatim>\<open>item.file.size > this.config.chunkSize\<close>, line 436; false for a missing chunk size.\<close>

definition uses_chunked :: "upload_config \<Rightarrow> js_file \<Rightarrow> bool" where
  "uses_chunked cfg f = (case chunkSize cfg of None \<Rightarrow> False | Some c \<Rightarrow> file_size f > c)"

text \<open>
  \<^verbatim>\<open>processQueue\<close>, lines 420 to 440, up to the \<^verbatim>\<open>await\<close>: JavaScript runs it
  without interruption.
\<close>

definition processQueue :: "upload_config \<Rightarrow> upload_state \<Rightarrow> upload_state" where
  "processQueue cfg s =
     (if uploading s then s
      else (case find (\<lambda>i. status i = Pending) (queue s) of
              None \<Rightarrow> s
            | Some item \<Rightarrow>
                s\<lparr>uploading := True,
                  queue := set_item (qi_ref item) (\<lambda>i. i\<lparr>status := Uploading\<rparr>) (queue s),
                  running := running s @ [qi_ref item],
                  started := started s @ [(qi_ref item, item_file item, uses_chunked cfg (item_file item))]\<rparr>))"

text \<open>
  \<^verbatim>\<open>addFiles\<close>, lines 336 to 353: the loop over the files, each paired with the id
  \<^verbatim>\<open>generateId()\<close> gives it if it is enqueued, then \<^verbatim>\<open>processQueue\<close>.
\<close>

fun enqueue_all :: "upload_config \<Rightarrow> (js_file \<times> string) list \<Rightarrow> upload_state \<Rightarrow> upload_state" where
  "enqueue_all cfg [] s = s"
| "enqueue_all cfg ((f, new_id) # rest) s =
     (if \<not> validateFile cfg f then enqueue_all cfg rest s
      else enqueue_all cfg rest
             (s\<lparr>queue := queue s @
                    [\<lparr>qi_ref = next_ref s, item_id = new_id, item_file = f, status = Pending,
                      progress = 0, error = None\<rparr>],
                 next_ref := next_ref s + 1\<rparr>))"

definition addFiles :: "upload_config \<Rightarrow> (js_file \<times> string) list \<Rightarrow> upload_state \<Rightarrow> upload_state" where
  "addFiles cfg files s = processQueue cfg (enqueue_all cfg files s)"

text \<open>
  \<^verbatim>\<open>cancel\<close>, lines 530 to 546: \<^verbatim>\<open>findIndex\<close> and \<^verbatim>\<open>splice(index, 1)\<close> remove
  the first item with the id. No code assigns \<^verbatim>\<open>item.xhr\<close> or
  \<^verbatim>\<open>item.uploadId\<close>, so the two guarded calls never run; the flag
  \<^verbatim>\<open>uploading\<close> is not touched.
\<close>

fun remove_first :: "('a \<Rightarrow> bool) \<Rightarrow> 'a list \<Rightarrow> 'a list" where
  "remove_first P [] = []"
| "remove_first P (x # xs) = (if P x then xs else x # remove_first P xs)"

definition cancel :: "string \<Rightarrow> upload_state \<Rightarrow> upload_state" where
  "cancel itemId s = s\<lparr>queue := remove_first (\<lambda>i. item_id i = itemId) (queue s)\<rparr>"

text \<open>
  What can happen to the client, one uninterrupted run of JavaScript each: files are
  added; an item is cancelled; the upload awaited for item \<open>r\<close> reports progress;
  a chunked upload reaches line 523 and marks its item \<^verbatim>\<open>processing\<close>; the awaited
  upload settles, resolved (\<open>None\<close>) or rejected with a message, and
  \<^verbatim>\<open>processQueue\<close> runs on from its \<^verbatim>\<open>await\<close> to its end (lines 442 to 456),
  calling itself again. An event for an upload that is not awaited does nothing.
\<close>

datatype upload_event =
    AddFiles "(js_file \<times> string) list"
  | Cancel string
  | Progress nat nat
  | EnterProcessing nat
  | Settled nat "string option"

fun step :: "upload_config \<Rightarrow> upload_state \<Rightarrow> upload_event \<Rightarrow> upload_state" where
  "step cfg s (AddFiles files) = addFiles cfg files s"
| "step cfg s (Cancel itemId) = cancel itemId s"
| "step cfg s (Progress r p) =
     (if r \<in> set (running s) then s\<lparr>queue := set_item r (\<lambda>i. i\<lparr>progress := p\<rparr>) (queue s)\<rparr>
      else s)"
| "step cfg s (EnterProcessing r) =
     (if r \<in> set (running s) \<and> (\<exists>e \<in> set (started s). fst e = r \<and> snd (snd e))
      then s\<lparr>queue := set_item r (\<lambda>i. i\<lparr>status := Processing\<rparr>) (queue s)\<rparr>
      else s)"
| "step cfg s (Settled r outcome) =
     (if r \<in> set (running s) then
        processQueue cfg
          (s\<lparr>queue := set_item r
                 (case outcome of
                    None \<Rightarrow> (\<lambda>i. i\<lparr>status := Complete, progress := 100\<rparr>)
                  | Some msg \<Rightarrow> (\<lambda>i. i\<lparr>status := Error, error := Some msg\<rparr>))
                 (queue s),
             uploading := False,
             running := removeAll r (running s)\<rparr>)
      else s)"

fun run_client :: "upload_config \<Rightarrow> upload_state \<Rightarrow> upload_event list \<Rightarrow> upload_state" where
  "run_client cfg s [] = s"
| "run_client cfg s (e # es) = run_client cfg (step cfg s e) es"

text \<open>
  What holds of every state the client reaches. Identities in the queue increase along
  it and lie below \<open>next_ref\<close>; an item marked \<^verbatim>\<open>uploading\<close> or
  \<^verbatim>\<open>processing\<close> is held by a suspended \<^verbatim>\<open>processQueue\<close>; exactly one call is
  suspended while the flag is set and none otherwise; uploads were started in
  increasing order of identity, each before every item still pending; and every file
  in the queue or started passed \<^verbatim>\<open>validateFile\<close>.
\<close>

definition queue_ok :: "upload_config \<Rightarrow> upload_state \<Rightarrow> bool" where
  "queue_ok cfg s \<longleftrightarrow>
     sorted_wrt (<) (map qi_ref (queue s)) \<and>
     (\<forall>i \<in> set (queue s). qi_ref i < next_ref s \<and> validateFile cfg (item_file i)) \<and>
     (\<forall>i \<in> set (queue s). status i = Uploading \<or> status i = Processing
        \<longrightarrow> qi_ref i \<in> set (running s)) \<and>
     (if uploading s then length (running s) = 1 else running s = []) \<and>
     sorted_wrt (<) (map fst (started s)) \<and>
     (\<forall>e \<in> set (started s). fst e < next_ref s \<and> validateFile cfg (fst (snd e))) \<and>
     (\<forall>e \<in> set (started s). \<forall>i \<in> set (queue s). status i = Pending \<longrightarrow> fst e < qi_ref i)"

text \<open>
  A concrete session under \<open>config0\<close> (at most 10 bytes, extensions txt and png):
  three files are dropped, of which the 11-byte one and the \<^verbatim>\<open>.exe\<close> are
  rejected; a fourth is added while the first uploads; the first upload then resolves.
\<close>

definition file_big :: js_file where
  "file_big = \<lparr>file_name = ''big.png'', file_bytes = ''0123456789A''\<rparr>"

definition file_exe :: js_file where
  "file_exe = \<lparr>file_name = ''setup.exe'', file_bytes = ''MZ''\<rparr>"

definition file_png :: js_file where
  "file_png = \<lparr>file_name = ''photo.v2.PNG'', file_bytes = ''89504E''\<rparr>"

definition session0 :: "upload_event list" where
  "session0 =
     [AddFiles [(file_big, ''upload_1''), (file0, ''upload_2''), (file_exe, ''upload_3'')],
      AddFiles [(file_png, ''upload_4'')]]"

text \<open>A configuration without a size limit: \<^verbatim>\<open>window.RUSTMEDIA_CONFIG\<close> is not set.\<close>

definition config_unset :: upload_config where
  "config_unset = \<lparr>maxFileSize = None, chunkSize = None, allowedExtensions = None\<rparr>"

section \<open>Part II: lemmas and theorems\<close>

subsection \<open>Folder statistics\<close>

text \<open>
  Each trigger event shifts the two counters of a folder row by what \<open>ev_count\<close> and
  \<open>ev_size\<close> say; the item table moves by the same amounts under every statement, so
  \<open>stats_ok\<close> and \<open>fk_ok\<close> hold along every history.
\<close>

lemma bind_pg_Inr_iff:
  "bind_pg r f = Inr y \<longleftrightarrow> (\<exists>x. r = Inr x \<and> f x = Inr y)"
  by (cases r) (simp_all add: bind_pg_def)

lemma adjust_folder_shift:
  assumes "adjust_folder now dc ds k fs = Inr fs'"
  shows "list_all2 (\<lambda>f f'. shifted (if Some (mf_id f) = k then dc else 0)
                                  (if Some (mf_id f) = k then ds else 0) f f') fs fs'"
proof -
  from assms have "fs' = map (\<lambda>f. if Some (mf_id f) = k
                          then f\<lparr>item_count := item_count f + dc,
                                 total_size := total_size f + ds,
                                 mf_updated_at := now\<rparr>
                          else f) fs"
    by (simp add: adjust_folder_def split: if_splits)
  then show ?thesis
    by (simp add: list_all2_map2 list_all2_same shifted_def)
qed

lemma shifted_trans_all2:
  assumes "list_all2 (\<lambda>f f'. shifted (a f) (b f) f f') fs fs1"
      and "list_all2 (\<lambda>f f'. shifted (c f) (d f) f f') fs1 fs2"
      and "\<And>f g. mf_id f = mf_id g \<Longrightarrow> c f = c g \<and> d f = d g"
  shows "list_all2 (\<lambda>f f'. shifted (a f + c f) (b f + d f) f f') fs fs2"
  using assms(1,2)
proof (induction arbitrary: fs2 rule: list_all2_induct)
  case Nil
  then show ?case by simp
next
  case (Cons x xs y ys)
  from Cons.prems obtain z zs where fs2: "fs2 = z # zs" and yz: "shifted (c y) (d y) y z"
    and rest: "list_all2 (\<lambda>f f'. shifted (c f) (d f) f f') ys zs"
    by (auto simp: list_all2_Cons1)
  have "mf_id y = mf_id x" using Cons.hyps(1) by (simp add: shifted_def)
  then have "c y = c x" "d y = d x" using assms(3) by blast+
  with Cons.hyps(1) yz have "shifted (a x + c x) (b x + d x) x z"
    by (simp add: shifted_def)
  with Cons.IH[OF rest] fs2 show ?case by simp
qed

lemma trigger_shift:
  assumes "update_folder_stats now e fs = Inr fs'"
  shows "list_all2 (\<lambda>f f'. shifted (ev_count e (mf_id f)) (ev_size e (mf_id f)) f f') fs fs'"
proof (cases e)
  case (TgInsert new)
  with assms adjust_folder_shift[of now 1 "mi_size new" "folder_id new" fs fs']
  show ?thesis
    by (auto simp: in_folder_def elim!: list_all2_mono)
next
  case (TgDelete old)
  with assms adjust_folder_shift[of now "- 1" "- mi_size old" "folder_id old" fs fs']
  show ?thesis
    by (auto simp: in_folder_def elim!: list_all2_mono)
next
  case (TgUpdate old new)
  show ?thesis
  proof (cases "folder_id old = folder_id new")
    case True
    with TgUpdate assms show ?thesis
      by (simp add: list_all2_same shifted_def)
  next
    case False
    with TgUpdate assms obtain fs1 where
      s1: "(if folder_id old \<noteq> None
              then adjust_folder now (- 1) (- mi_size old) (folder_id old) fs
              else Inr fs) = Inr fs1"
      and s2: "(if folder_id new \<noteq> None
              then adjust_folder now 1 (mi_size new) (folder_id new) fs1
              else Inr fs1) = Inr fs'"
      by (auto simp: bind_pg_Inr_iff)
    have r1: "list_all2 (\<lambda>f f'. shifted (- in_folder old (mf_id f))
                 (- (in_folder old (mf_id f) * mi_size old)) f f') fs fs1"
    proof (cases "folder_id old")
      case None
      with s1 show ?thesis by (simp add: list_all2_same shifted_def in_folder_def)
    next
      case (Some a)
      with s1 adjust_folder_shift[of now "- 1" "- mi_size old" "folder_id old" fs fs1]
      show ?thesis by (auto simp: in_folder_def elim!: list_all2_mono)
    qed
    have r2: "list_all2 (\<lambda>f f'. shifted (in_folder new (mf_id f))
                 (in_folder new (mf_id f) * mi_size new) f f') fs1 fs'"
    proof (cases "folder_id new")
      case None
      with s2 show ?thesis by (simp add: list_all2_same shifted_def in_folder_def)
    next
      case (Some a)
      with s2 adjust_folder_shift[of now 1 "mi_size new" "folder_id new" fs1 fs']
      show ?thesis by (auto simp: in_folder_def elim!: list_all2_mono)
    qed
    from shifted_trans_all2[OF r1 r2] TgUpdate False show ?thesis
      by (auto elim!: list_all2_mono)
  qed
qed

lemma fire_each_shift:
  "fire_each now es fs = Inr fs' \<Longrightarrow>
   list_all2 (\<lambda>f f'. shifted (\<Sum>e\<leftarrow>es. ev_count e (mf_id f)) (\<Sum>e\<leftarrow>es. ev_size e (mf_id f)) f f')
     fs fs'"
proof (induction es arbitrary: fs)
  case Nil
  then show ?case by (simp add: list_all2_same shifted_def)
next
  case (Cons e es)
  then obtain fs1 where a: "update_folder_stats now e fs = Inr fs1"
    and b: "fire_each now es fs1 = Inr fs'"
    by (auto simp: bind_pg_Inr_iff)
  from shifted_trans_all2[OF trigger_shift[OF a] Cons.IH[OF b]]
  show ?case by simp
qed

lemma count_filter_sum:
  "int (length (filter (\<lambda>m. folder_id m = Some k) xs)) = (\<Sum>m\<leftarrow>xs. in_folder m k)"
  by (induction xs) (auto simp: in_folder_def)

lemma size_filter_sum:
  "sum_list (map mi_size (filter (\<lambda>m. folder_id m = Some k) xs))
     = (\<Sum>m\<leftarrow>xs. in_folder m k * mi_size m)"
  by (induction xs) (auto simp: in_folder_def)

lemma stats_ok_sum:
  "stats_ok s \<longleftrightarrow>
     (\<forall>f \<in> set (media_folders s).
        item_count f = (\<Sum>m\<leftarrow>media_items s. in_folder m (mf_id f)) \<and>
        total_size f = (\<Sum>m\<leftarrow>media_items s. in_folder m (mf_id f) * mi_size m))"
  by (simp add: stats_ok_def rows_in_def count_filter_sum size_filter_sum)

lemma sum_list_split:
  "(\<Sum>m\<leftarrow>xs. (g m :: int)) = (\<Sum>m\<leftarrow>filter P xs. g m) + (\<Sum>m\<leftarrow>filter (\<lambda>m. \<not> P m) xs. g m)"
  by (induction xs) auto

lemma sum_list_update:
  "(\<Sum>m\<leftarrow>map (\<lambda>m. if P m then u m else m) xs. (g m :: int))
     = (\<Sum>m\<leftarrow>xs. g m) + (\<Sum>m\<leftarrow>filter P xs. g (u m) - g m)"
  by (induction xs) auto

lemma sum_list_neg: "(\<Sum>m\<leftarrow>xs. - (g m :: int)) = - (\<Sum>m\<leftarrow>xs. g m)"
  by (induction xs) auto

lemma all2_set_right:
  "list_all2 R xs ys \<Longrightarrow> y \<in> set ys \<Longrightarrow> \<exists>x \<in> set xs. R x y"
  by (induction rule: list_all2_induct) auto

lemma all2_shifted_ids:
  "list_all2 (\<lambda>f f'. shifted (a f) (b f) f f') fs fs' \<Longrightarrow> map mf_id fs' = map mf_id fs"
  by (induction rule: list_all2_induct) (auto simp: shifted_def)

lemma fire_each_ids:
  "fire_each now es fs = Inr fs' \<Longrightarrow> mf_id ` set fs' = mf_id ` set fs"
  using all2_shifted_ids[OF fire_each_shift, of now es fs fs']
  by (metis set_map)

lemma folder_exists_cong:
  "mf_id ` set (media_folders s') = mf_id ` set (media_folders s) \<Longrightarrow>
   folder_exists s' k = folder_exists s k"
  by (simp add: folder_exists_def split: option.splits)

text \<open>The folder rows after the trigger ran for \<open>es\<close>, against any new item table whose
  per-folder sums moved by what the events say.\<close>

lemma stats_ok_after_events:
  assumes ok: "stats_ok s"
      and fire: "fire_each now es (media_folders s) = Inr fs"
      and cnt: "\<And>k. (\<Sum>m\<leftarrow>items'. in_folder m k)
                   = (\<Sum>m\<leftarrow>media_items s. in_folder m k) + (\<Sum>e\<leftarrow>es. ev_count e k)"
      and siz: "\<And>k. (\<Sum>m\<leftarrow>items'. in_folder m k * mi_size m)
                   = (\<Sum>m\<leftarrow>media_items s. in_folder m k * mi_size m) + (\<Sum>e\<leftarrow>es. ev_size e k)"
  shows "stats_ok \<lparr>media_folders = fs, media_items = items'\<rparr>"
  unfolding stats_ok_sum
proof
  fix f' assume "f' \<in> set (media_folders \<lparr>media_folders = fs, media_items = items'\<rparr>)"
  then have "f' \<in> set fs" by simp
  from all2_set_right[OF fire_each_shift[OF fire] this]
  obtain f where f: "f \<in> set (media_folders s)"
    and sh: "shifted (\<Sum>e\<leftarrow>es. ev_count e (mf_id f)) (\<Sum>e\<leftarrow>es. ev_size e (mf_id f)) f f'"
    by blast
  from ok f have "item_count f = (\<Sum>m\<leftarrow>media_items s. in_folder m (mf_id f))"
    and "total_size f = (\<Sum>m\<leftarrow>media_items s. in_folder m (mf_id f) * mi_size m)"
    by (simp_all add: stats_ok_sum)
  with sh cnt[of "mf_id f"] siz[of "mf_id f"]
  show "item_count f' = (\<Sum>m\<leftarrow>media_items \<lparr>media_folders = fs, media_items = items'\<rparr>. in_folder m (mf_id f')) \<and>
        total_size f' = (\<Sum>m\<leftarrow>media_items \<lparr>media_folders = fs, media_items = items'\<rparr>. in_folder m (mf_id f') * mi_size m)"
    by (simp add: shifted_def)
qed

lemma update_items_inv:
  assumes run: "update_items now i upd s = Inr s'"
      and keep: "\<And>m. mi_size (upd m) = mi_size m"
      and tgt: "\<And>m. m \<in> set (media_items s) \<Longrightarrow> mi_id m = i \<Longrightarrow> folder_exists s (folder_id (upd m))"
      and fk: "fk_ok s" and ok: "stats_ok s"
  shows "fk_ok s' \<and> stats_ok s'"
proof -
  let ?hit = "filter (\<lambda>m. mi_id m = i) (media_items s)"
  let ?es = "map (\<lambda>m. TgUpdate m (upd m)) ?hit"
  let ?items = "map (\<lambda>m. if mi_id m = i then upd m else m) (media_items s)"
  from run obtain fs where fire: "fire_each now ?es (media_folders s) = Inr fs"
    and s': "s' = \<lparr>media_folders = fs, media_items = ?items\<rparr>"
    by (auto simp: update_items_def Let_def bind_pg_Inr_iff)
  have c: "ev_count (TgUpdate m (upd m)) k = in_folder (upd m) k - in_folder m k" for m k
    by (simp add: in_folder_def)
  have z: "ev_size (TgUpdate m (upd m)) k
             = in_folder (upd m) k * mi_size (upd m) - in_folder m k * mi_size m" for m k
    by (simp add: in_folder_def keep)
  have "stats_ok \<lparr>media_folders = fs, media_items = ?items\<rparr>"
  proof (rule stats_ok_after_events[OF ok fire])
    fix k
    have "(\<Sum>e\<leftarrow>?es. ev_count e k) = (\<Sum>m\<leftarrow>?hit. in_folder (upd m) k - in_folder m k)"
      by (simp add: o_def c del: ev_count.simps)
    with sum_list_update[where P="\<lambda>m. mi_id m = i" and u=upd and xs="media_items s"
           and g="\<lambda>m. in_folder m k"]
    show "(\<Sum>m\<leftarrow>?items. in_folder m k)
            = (\<Sum>m\<leftarrow>media_items s. in_folder m k) + (\<Sum>e\<leftarrow>?es. ev_count e k)"
      by simp
    have "(\<Sum>e\<leftarrow>?es. ev_size e k)
            = (\<Sum>m\<leftarrow>?hit. in_folder (upd m) k * mi_size (upd m) - in_folder m k * mi_size m)"
      by (simp add: o_def z del: ev_size.simps)
    with sum_list_update[where P="\<lambda>m. mi_id m = i" and u=upd and xs="media_items s"
           and g="\<lambda>m. in_folder m k * mi_size m"]
    show "(\<Sum>m\<leftarrow>?items. in_folder m k * mi_size m)
            = (\<Sum>m\<leftarrow>media_items s. in_folder m k * mi_size m) + (\<Sum>e\<leftarrow>?es. ev_size e k)"
      by simp
  qed
  moreover have "fk_ok \<lparr>media_folders = fs, media_items = ?items\<rparr>"
    unfolding fk_ok_def
  proof
    fix m' assume "m' \<in> set (media_items \<lparr>media_folders = fs, media_items = ?items\<rparr>)"
    then obtain m where m: "m \<in> set (media_items s)"
      and m': "m' = (if mi_id m = i then upd m else m)"
      by auto
    have "folder_exists s (folder_id m')"
    proof (cases "mi_id m = i")
      case True
      with tgt[OF m] m' show ?thesis by simp
    next
      case False
      with fk m m' show ?thesis by (simp add: fk_ok_def)
    qed
    moreover have "mf_id ` set (media_folders \<lparr>media_folders = fs, media_items = ?items\<rparr>)
                     = mf_id ` set (media_folders s)"
      using fire_each_ids[OF fire] by simp
    ultimately show "folder_exists \<lparr>media_folders = fs, media_items = ?items\<rparr> (folder_id m')"
      using folder_exists_cong by blast
  qed
  ultimately show ?thesis by (simp add: s')
qed

lemma exec_inv:
  assumes "exec now s st = Inr s'" "fk_ok s" "stats_ok s"
  shows "fk_ok s' \<and> stats_ok s'"
proof (cases st)
  case (CreateFolder k slug parent)
  with assms(1) have fresh: "k \<notin> mf_id ` set (media_folders s)"
    and s': "s' = s\<lparr>media_folders := media_folders s @
                  [\<lparr>mf_id = k, mf_slug = slug, parent_id = parent, item_count = 0,
                    total_size = 0, mf_updated_at = now\<rparr>]\<rparr>"
    by (auto split: if_splits)
  from fresh assms(2) have none: "\<forall>m \<in> set (media_items s). folder_id m \<noteq> Some k"
    by (auto simp: fk_ok_def folder_exists_def split: option.splits)
  then have "filter (\<lambda>m. folder_id m = Some k) (media_items s) = []"
    by (simp add: filter_empty_conv)
  with assms(3) have "stats_ok s'"
    by (auto simp: s' stats_ok_def rows_in_def)
  moreover from assms(2) have "fk_ok s'"
    by (auto simp: s' fk_ok_def folder_exists_def split: option.splits)
  ultimately show ?thesis by simp
next
  case (InsertItem new)
  with assms(1) obtain fs where
    fire: "fire_each now [TgInsert new] (media_folders s) = Inr fs"
    and s': "s' = \<lparr>media_folders = fs, media_items = media_items s @ [new]\<rparr>"
    and ex: "folder_exists s (folder_id new)"
    by (auto simp: bind_pg_Inr_iff split: if_splits)
  have "stats_ok \<lparr>media_folders = fs, media_items = media_items s @ [new]\<rparr>"
    by (rule stats_ok_after_events[OF assms(3) fire]) simp_all
  moreover have "fk_ok \<lparr>media_folders = fs, media_items = media_items s @ [new]\<rparr>"
    using assms(2) ex fire_each_ids[OF fire]
    by (auto simp: fk_ok_def folder_exists_def split: option.splits)
  ultimately show ?thesis by (simp add: s')
next
  case (DeleteItem i)
  let ?hit = "filter (\<lambda>m. mi_id m = i) (media_items s)"
  let ?items = "filter (\<lambda>m. mi_id m \<noteq> i) (media_items s)"
  from DeleteItem assms(1) obtain fs where
    fire: "fire_each now (map TgDelete ?hit) (media_folders s) = Inr fs"
    and s': "s' = \<lparr>media_folders = fs, media_items = ?items\<rparr>"
    by (auto simp: Let_def bind_pg_Inr_iff)
  have "stats_ok \<lparr>media_folders = fs, media_items = ?items\<rparr>"
    by (rule stats_ok_after_events[OF assms(3) fire])
       (simp_all add: sum_list_split[where P="\<lambda>m. mi_id m = i" and xs="media_items s"]
          o_def sum_list_neg)
  moreover have "fk_ok \<lparr>media_folders = fs, media_items = ?items\<rparr>"
    using assms(2) fire_each_ids[OF fire]
    by (auto simp: fk_ok_def folder_exists_def split: option.splits)
  ultimately show ?thesis by (simp add: s')
next
  case (SetFolder i k)
  with assms(1) have run: "update_items now i (\<lambda>m. m\<lparr>folder_id := k\<rparr>) s = Inr s'"
    and tgt: "(\<exists>m \<in> set (media_items s). mi_id m = i) \<longrightarrow> folder_exists s k"
    by (auto split: if_splits)
  show ?thesis
    by (rule update_items_inv[OF run _ _ assms(2,3)]) (use tgt in auto)
next
  case (SetDeletedAt i d)
  with assms(1) have run: "update_items now i (\<lambda>m. m\<lparr>deleted_at := d\<rparr>) s = Inr s'"
    by simp
  show ?thesis
    by (rule update_items_inv[OF run _ _ assms(2,3)]) (use assms(2) in \<open>auto simp: fk_ok_def\<close>)
qed

lemma run_inv: "fk_ok s \<Longrightarrow> stats_ok s \<Longrightarrow> fk_ok (run s h) \<and> stats_ok (run s h)"
proof (induction h arbitrary: s)
  case Nil
  then show ?case by simp
next
  case (Cons a h)
  obtain now st where a: "a = (now, st)" by (cases a)
  show ?case
  proof (cases "exec now s st")
    case (Inl e)
    with Cons a show ?thesis by simp
  next
    case (Inr s')
    from exec_inv[OF Inr Cons.prems] Cons.IH[of s'] Inr a show ?thesis by simp
  qed
qed

text \<open>
  Claim C1, as amended. After any history of folder creations (with the default counters
  0 and 0), item insertions, hard deletions, moves, soft deletions and restores, run from
  the empty database, every folder's \<open>item_count\<close> is the number of rows of
  \<^verbatim>\<open>media_items\<close> whose \<open>folder_id\<close> is that folder, and its \<open>total_size\<close> is
  the sum of their sizes. The rows counted are the rows present: a soft-deleted row
  (\<open>deleted_at\<close> set) still counts, a hard-deleted one does not.
\<close>

theorem folder_stats_track_rows:
  "\<forall>f \<in> set (media_folders (run empty_catalog h)).
     item_count f = int (length (rows_in (run empty_catalog h) (mf_id f))) \<and>
     total_size f = sum_list (map mi_size (rows_in (run empty_catalog h) (mf_id f)))"
proof -
  have "fk_ok empty_catalog" "stats_ok empty_catalog"
    by (simp_all add: fk_ok_def stats_ok_def empty_catalog_def)
  from run_inv[OF this, of h] show ?thesis by (simp add: stats_ok_def)
qed

lemma run_history0:
  "run empty_catalog history0 =
     \<lparr>media_folders =
        [\<lparr>mf_id = 1, mf_slug = ''photos'', parent_id = None, item_count = 0,
          total_size = 0, mf_updated_at = 1\<rparr>,
         \<lparr>mf_id = 2, mf_slug = ''2024'', parent_id = Some 1, item_count = 1,
          total_size = 2000000, mf_updated_at = 3\<rparr>],
      media_items =
        [\<lparr>mi_id = 10, mi_size = 2000000, folder_id = Some 2,
          content_hash = ''9f86d081'', deleted_at = Some 4\<rparr>]\<rparr>"
  by (simp add: history0_def empty_catalog_def folder_exists_def update_items_def
        adjust_folder_def bind_pg_def int4_ok_def int8_ok_def)

text \<open>
  Claim C1 as stated, with the aggregate taken over the non-deleted rows
  (\<open>deleted_at\<close> \<^verbatim>\<open>NULL\<close>), fails after a soft delete, the deletion that
  \<^verbatim>\<open>RustMedia.API.deleteMedia(id, permanent = false)\<close> asks for by default: the
  trigger makes no change for an \<^verbatim>\<open>UPDATE\<close> that leaves \<open>folder_id\<close> alone, so
  folder 2 keeps \<open>item_count = 1\<close> while it holds no live row.
\<close>

theorem folder_stats_live_counterexample:
  "\<not> (\<forall>f \<in> set (media_folders (run empty_catalog history0)).
        item_count f = int (length (live_rows_in (run empty_catalog history0) (mf_id f))) \<and>
        total_size f = sum_list (map mi_size (live_rows_in (run empty_catalog history0) (mf_id f))))"
  by (simp add: run_history0 live_rows_in_def rows_in_def)

text \<open>The amended claim at \<open>history0\<close>: folder 2 carries 1 row of 2000000 bytes.\<close>

theorem folder_stats_track_rows_witness:
  "\<lparr>mf_id = 2, mf_slug = ''2024'', parent_id = Some 1, item_count = 1,
     total_size = 2000000, mf_updated_at = 3\<rparr> \<in> set (media_folders (run empty_catalog history0)) \<and>
   length (rows_in (run empty_catalog history0) 2) = 1 \<and>
   sum_list (map mi_size (rows_in (run empty_catalog history0) 2)) = 2000000"
  using folder_stats_track_rows[of history0]
  by (simp add: run_history0 rows_in_def)

subsection \<open>Moving an item\<close>

lemma find_map_keep:
  "(\<And>x. P (g x) = P x) \<Longrightarrow> find P (map g xs) = map_option g (find P xs)"
  by (induction xs) auto

lemma adjust_folder_find:
  assumes "adjust_folder now dc ds (Some k) fs = Inr fs'"
  shows "find (\<lambda>f. mf_id f = c) fs' =
           map_option (\<lambda>f. if mf_id f = k
                            then f\<lparr>item_count := item_count f + dc,
                                   total_size := total_size f + ds,
                                   mf_updated_at := now\<rparr>
                            else f)
             (find (\<lambda>f. mf_id f = c) fs)"
proof -
  from assms have "fs' = map (\<lambda>f. if mf_id f = k
                          then f\<lparr>item_count := item_count f + dc,
                                 total_size := total_size f + ds,
                                 mf_updated_at := now\<rparr>
                          else f) fs"
    by (simp add: adjust_folder_def split: if_splits)
  then show ?thesis by (simp add: find_map_keep)
qed

lemma find_Some_id: "find (\<lambda>f. mf_id f = c) fs = Some f \<Longrightarrow> mf_id f = c"
  by (induction fs) (auto split: if_splits)

lemma distinct_filter_one:
  "distinct (map h xs) \<Longrightarrow> x \<in> set xs \<Longrightarrow> filter (\<lambda>y. h y = h x) xs = [x]"
proof (induction xs)
  case Nil
  then show ?case by simp
next
  case (Cons a xs)
  show ?case
  proof (cases "a = x")
    case True
    with Cons.prems have "\<forall>y \<in> set xs. h y \<noteq> h x" by (auto simp: image_iff)
    then have "filter (\<lambda>y. h y = h x) xs = []" by (simp add: filter_empty_conv)
    with True show ?thesis by simp
  next
    case False
    with Cons.prems have "x \<in> set xs" "h a \<noteq> h x" by (auto simp: image_iff)
    with Cons show ?thesis by simp
  qed
qed

lemma distinct_find_one:
  "distinct (map h xs) \<Longrightarrow> x \<in> set xs \<Longrightarrow> find (\<lambda>y. h y = h x) xs = Some x"
  by (induction xs) (auto simp: image_iff)

text \<open>
  Claim C4. Let the item \<open>it\<close> with id \<open>i\<close> (ids are a primary key) lie in folder
  \<open>a\<close>, and let \<^verbatim>\<open>UPDATE media_items SET folder_id = b WHERE id = i\<close> with
  \<open>b \<noteq> a\<close> succeed with the database \<open>s'\<close>. That one statement is the whole step:
  in \<open>s'\<close> the item is in \<open>b\<close>, folder \<open>a\<close> has lost 1 from \<open>item_count\<close> and
  the item's size from \<open>total_size\<close>, folder \<open>b\<close> has gained the same, and the row of
  every other folder, the ancestors of \<open>a\<close> and \<open>b\<close> among them, is as it was. A
  statement that raises yields no new database at all.
\<close>

theorem move_adjusts_source_and_target:
  assumes pk: "distinct (map mi_id (media_items s))"
      and it: "it \<in> set (media_items s)" "mi_id it = i" "folder_id it = Some a"
      and ab: "a \<noteq> b"
      and fa: "find_folder s a = Some fa"
      and mv: "exec now s (SetFolder i (Some b)) = Inr s'"
  shows "find_item s' i = Some (it\<lparr>folder_id := Some b\<rparr>) \<and>
         find_folder s' a = Some (fa\<lparr>item_count := item_count fa - 1,
                                     total_size := total_size fa - mi_size it,
                                     mf_updated_at := now\<rparr>) \<and>
         (\<exists>fb. find_folder s b = Some fb \<and>
               find_folder s' b = Some (fb\<lparr>item_count := item_count fb + 1,
                                           total_size := total_size fb + mi_size it,
                                           mf_updated_at := now\<rparr>)) \<and>
         (\<forall>c. c \<noteq> a \<and> c \<noteq> b \<longrightarrow> find_folder s' c = find_folder s c)"
proof -
  let ?it' = "it\<lparr>folder_id := Some b\<rparr>"
  have hit: "filter (\<lambda>m. mi_id m = i) (media_items s) = [it]"
    using distinct_filter_one[OF pk it(1)] it(2) by simp
  from mv it have ex: "folder_exists s (Some b)"
    and up: "update_items now i (\<lambda>m. m\<lparr>folder_id := Some b\<rparr>) s = Inr s'"
    by (auto split: if_splits)
  from up hit it(3) ab obtain fs1 fs2 where
    s1: "adjust_folder now (- 1) (- mi_size it) (Some a) (media_folders s) = Inr fs1"
    and s2: "adjust_folder now 1 (mi_size it) (Some b) fs1 = Inr fs2"
    and s': "s' = \<lparr>media_folders = fs2,
                   media_items = map (\<lambda>m. if mi_id m = i then m\<lparr>folder_id := Some b\<rparr> else m)
                                   (media_items s)\<rparr>"
    by (auto simp: update_items_def bind_pg_Inr_iff)
  have look: "find (\<lambda>f. mf_id f = c) fs2 =
                map_option (\<lambda>f. if mf_id f = b
                            then f\<lparr>item_count := item_count f + 1,
                                   total_size := total_size f + mi_size it,
                                   mf_updated_at := now\<rparr>
                            else f)
                 (map_option (\<lambda>f. if mf_id f = a
                            then f\<lparr>item_count := item_count f + (- 1),
                                   total_size := total_size f + (- mi_size it),
                                   mf_updated_at := now\<rparr>
                            else f)
                   (find (\<lambda>f. mf_id f = c) (media_folders s)))" for c
    by (simp only: adjust_folder_find[OF s2] adjust_folder_find[OF s1])
  have "find (\<lambda>m. mi_id m = i) (media_items s) = Some it"
    using distinct_find_one[OF pk it(1)] it(2) by simp
  then have g1: "find_item s' i = Some ?it'"
    using it(2) by (simp add: find_item_def s' find_map_keep)
  from fa have ida: "mf_id fa = a" by (auto simp: find_folder_def dest: find_Some_id)
  have g2: "find_folder s' a = Some (fa\<lparr>item_count := item_count fa - 1,
                                     total_size := total_size fa - mi_size it,
                                     mf_updated_at := now\<rparr>)"
    using fa ida ab by (simp add: find_folder_def s' look)
  from ex obtain fb0 where "fb0 \<in> set (media_folders s)" "mf_id fb0 = b"
    by (auto simp: folder_exists_def)
  then obtain fb where fb: "find (\<lambda>f. mf_id f = b) (media_folders s) = Some fb"
    by (cases "find (\<lambda>f. mf_id f = b) (media_folders s)") (auto simp: find_None_iff)
  then have idb: "mf_id fb = b" by (rule find_Some_id)
  have g3: "find_folder s b = Some fb \<and>
               find_folder s' b = Some (fb\<lparr>item_count := item_count fb + 1,
                                           total_size := total_size fb + mi_size it,
                                           mf_updated_at := now\<rparr>)"
    using fb idb ab by (simp add: find_folder_def s' look)
  have g4: "find_folder s' c = find_folder s c" if "c \<noteq> a \<and> c \<noteq> b" for c
  proof (cases "find (\<lambda>f. mf_id f = c) (media_folders s)")
    case None
    then show ?thesis by (simp add: find_folder_def s' look)
  next
    case (Some f)
    then have "mf_id f = c" by (rule find_Some_id)
    with Some that show ?thesis by (simp add: find_folder_def s' look)
  qed
  from g1 g2 g3 g4 show ?thesis by blast
qed

text \<open>Claim C4 at \<open>catalog0\<close>: item 10 moves from folder 2 to folder 3.\<close>

theorem move_adjusts_source_and_target_witness:
  "distinct (map mi_id (media_items catalog0)) \<and> item0 \<in> set (media_items catalog0) \<and>
   mi_id item0 = 10 \<and> folder_id item0 = Some 2 \<and> (2::nat) \<noteq> 3 \<and>
   find_folder catalog0 2 =
     Some \<lparr>mf_id = 2, mf_slug = ''2024'', parent_id = Some 1, item_count = 1,
           total_size = 2000000, mf_updated_at = 4\<rparr> \<and>
   exec 9 catalog0 (SetFolder 10 (Some 3)) = Inr catalog1 \<and>
   find_item catalog1 10 = Some (item0\<lparr>folder_id := Some 3\<rparr>) \<and>
   find_folder catalog1 2 =
     Some \<lparr>mf_id = 2, mf_slug = ''2024'', parent_id = Some 1, item_count = 0,
           total_size = 0, mf_updated_at = 9\<rparr> \<and>
   find_folder catalog1 3 =
     Some \<lparr>mf_id = 3, mf_slug = ''archive'', parent_id = None, item_count = 1,
           total_size = 2000000, mf_updated_at = 9\<rparr> \<and>
   find_folder catalog1 1 = find_folder catalog0 1"
proof -
  have h1: "distinct (map mi_id (media_items catalog0))" by (simp add: catalog0_def)
  have h2: "item0 \<in> set (media_items catalog0)" by (simp add: catalog0_def)
  have h3: "mi_id item0 = 10" "folder_id item0 = Some 2" by (simp_all add: item0_def)
  have h4: "(2::nat) \<noteq> 3" by simp
  have h5: "find_folder catalog0 2 =
     Some \<lparr>mf_id = 2, mf_slug = ''2024'', parent_id = Some 1, item_count = 1,
           total_size = 2000000, mf_updated_at = 4\<rparr>"
    by (simp add: find_folder_def catalog0_def)
  have h6: "exec 9 catalog0 (SetFolder 10 (Some 3)) = Inr catalog1"
    by (simp add: catalog0_def catalog1_def item0_def folder_exists_def update_items_def
        adjust_folder_def bind_pg_def int4_ok_def int8_ok_def)
  have h7: "find_folder catalog0 3 =
     Some \<lparr>mf_id = 3, mf_slug = ''archive'', parent_id = None, item_count = 0,
           total_size = 0, mf_updated_at = 3\<rparr>"
    by (simp add: find_folder_def catalog0_def)
  from move_adjusts_source_and_target[OF h1 h2 h3 h4 h5 h6] h1 h2 h3 h4 h5 h6 h7
  show ?thesis by (simp add: item0_def)
qed

subsection \<open>Tag usage\<close>

text \<open>
  The trigger events of a statement add their \<open>tag_delta\<close> to the usage count of each
  tag; \<open>tags_ok\<close> holds along every history.
\<close>

lemma adjust_usage_map:
  "adjust_usage d k ts = Inr ts' \<Longrightarrow>
   ts' = map (\<lambda>t. t\<lparr>usage_count := usage_count t + (if mt_id t = k then d else 0)\<rparr>) ts"
  by (auto simp: adjust_usage_def split: if_splits)

lemma update_tag_usage_map:
  "update_tag_usage e ts = Inr ts' \<Longrightarrow>
   ts' = map (\<lambda>t. t\<lparr>usage_count := usage_count t + tag_delta e (mt_id t)\<rparr>) ts"
  by (cases e) (auto dest: adjust_usage_map)

lemma fire_each_tag_map:
  "fire_each_tag es ts = Inr ts' \<Longrightarrow>
   ts' = map (\<lambda>t. t\<lparr>usage_count := usage_count t + (\<Sum>e\<leftarrow>es. tag_delta e (mt_id t))\<rparr>) ts"
proof (induction es arbitrary: ts)
  case Nil
  then show ?case by simp
next
  case (Cons e es)
  then obtain ts1 where a: "update_tag_usage e ts = Inr ts1"
    and b: "fire_each_tag es ts1 = Inr ts'"
    by (auto simp: bind_pg_Inr_iff)
  from update_tag_usage_map[OF a] Cons.IH[OF b] show ?case
    by (simp add: o_def add.assoc)
qed

lemma tag_count_sum:
  "int (length (filter (\<lambda>r. tag_id r = k) rs)) = (\<Sum>r\<leftarrow>rs. if tag_id r = k then 1 else 0)"
  by (induction rs) auto

lemma tag_delete_sum:
  "(\<Sum>e\<leftarrow>map TgDelete rs. tag_delta e k) = - int (length (filter (\<lambda>r. tag_id r = k) rs))"
  by (induction rs) auto

lemma tag_count_split:
  "int (length (filter (\<lambda>r. tag_id r = k) rs))
     = int (length (filter (\<lambda>r. tag_id r = k) (filter P rs)))
       + int (length (filter (\<lambda>r. tag_id r = k) (filter (\<lambda>r. \<not> P r) rs)))"
  by (induction rs) auto

lemma exec_tag_inv:
  assumes "exec_tag s st = Inr s'" "tags_ok s"
  shows "tags_ok s'"
proof (cases st)
  case (CreateTag k name slug)
  with assms(1) have fresh: "k \<notin> mt_id ` set (media_tags s)"
    and s': "s' = s\<lparr>media_tags := media_tags s @
                  [\<lparr>mt_id = k, mt_name = name, mt_slug = slug, usage_count = 0\<rparr>]\<rparr>"
    by (auto split: if_splits)
  from fresh assms(2) have "\<forall>r \<in> set (media_item_tags s). tag_id r \<noteq> k"
    by (auto simp: tags_ok_def)
  then have "filter (\<lambda>r. tag_id r = k) (media_item_tags s) = []"
    by (simp add: filter_empty_conv)
  with assms(2) show ?thesis
    by (auto simp: s' tags_ok_def tag_rows_def)
next
  case (InsertItemTag new)
  with assms(1) obtain ts where
    fire: "fire_each_tag [TgInsert new] (media_tags s) = Inr ts"
    and s': "s' = \<lparr>media_tags = ts, media_item_tags = media_item_tags s @ [new]\<rparr>"
    and fk: "tag_id new \<in> mt_id ` set (media_tags s)"
    by (auto simp: bind_pg_Inr_iff split: if_splits)
  from fire_each_tag_map[OF fire] assms(2) fk show ?thesis
    by (auto simp: s' tags_ok_def tag_rows_def image_iff)
next
  case (DeleteItemTags P)
  with assms(1) obtain ts where
    fire: "fire_each_tag (map TgDelete (filter P (media_item_tags s))) (media_tags s) = Inr ts"
    and s': "s' = \<lparr>media_tags = ts,
                   media_item_tags = filter (\<lambda>r. \<not> P r) (media_item_tags s)\<rparr>"
    by (auto simp: bind_pg_Inr_iff)
  have ts: "ts = map (\<lambda>t. t\<lparr>usage_count := usage_count t
                - int (length (filter (\<lambda>r. tag_id r = mt_id t) (filter P (media_item_tags s))))\<rparr>)
              (media_tags s)"
    using fire_each_tag_map[OF fire, unfolded tag_delete_sum] by simp
  have refs: "\<forall>r \<in> set (media_item_tags s'). tag_id r \<in> mt_id ` set (media_tags s')"
    using assms(2) by (auto simp: s' ts tags_ok_def image_iff)
  have cnt: "\<forall>t \<in> set (media_tags s'). usage_count t = int (length (tag_rows s' (mt_id t)))"
  proof
    fix t' assume "t' \<in> set (media_tags s')"
    then obtain t where t: "t \<in> set (media_tags s)"
      and t': "t' = t\<lparr>usage_count := usage_count t
                - int (length (filter (\<lambda>r. tag_id r = mt_id t) (filter P (media_item_tags s))))\<rparr>"
      by (auto simp: s' ts)
    from assms(2) t have "usage_count t = int (length (filter (\<lambda>r. tag_id r = mt_id t) (media_item_tags s)))"
      by (simp add: tags_ok_def tag_rows_def)
    with tag_count_split[of "mt_id t" "media_item_tags s" P]
    show "usage_count t' = int (length (tag_rows s' (mt_id t')))"
      by (simp add: t' s' tag_rows_def)
  qed
  from refs cnt show ?thesis by (simp add: tags_ok_def)
qed

lemma run_tag_inv: "tags_ok s \<Longrightarrow> tags_ok (run_tag s h)"
proof (induction h arbitrary: s)
  case Nil
  then show ?case by simp
next
  case (Cons st h)
  show ?case
  proof (cases "exec_tag s st")
    case (Inl e)
    with Cons show ?thesis by simp
  next
    case (Inr s')
    from exec_tag_inv[OF Inr Cons.prems] Cons.IH[of s'] Inr show ?thesis by simp
  qed
qed

text \<open>
  Claim C6. After any history of tag creations (with the default \<open>usage_count = 0\<close>),
  insertions of rows into \<^verbatim>\<open>media_item_tags\<close> and deletions of rows from it, run
  from the empty tables, every tag's \<open>usage_count\<close> is the number of rows of
  \<^verbatim>\<open>media_item_tags\<close> that reference the tag: each inserted row added 1, each
  deleted row took 1 away.
\<close>

theorem usage_count_tracks_rows:
  "\<forall>t \<in> set (media_tags (run_tag empty_tagging h)).
     usage_count t = int (length (tag_rows (run_tag empty_tagging h) (mt_id t)))"
proof -
  have "tags_ok empty_tagging" by (simp add: tags_ok_def empty_tagging_def)
  from run_tag_inv[OF this, of h] show ?thesis by (simp add: tags_ok_def)
qed

lemma run_tag_history0:
  "run_tag empty_tagging tag_history0 =
     \<lparr>media_tags = [\<lparr>mt_id = 1, mt_name = ''Holiday'', mt_slug = ''holiday'', usage_count = 1\<rparr>,
                    \<lparr>mt_id = 2, mt_name = ''Beach'', mt_slug = ''beach'', usage_count = 0\<rparr>],
      media_item_tags = [\<lparr>media_id = 11, tag_id = 1\<rparr>]\<rparr>"
  by (simp add: tag_history0_def empty_tagging_def adjust_usage_def bind_pg_def int4_ok_def)

text \<open>Claim C6 at \<open>tag_history0\<close>: tag 1 is left with one row, tag 2 with none.\<close>

theorem usage_count_tracks_rows_witness:
  "\<lparr>mt_id = 1, mt_name = ''Holiday'', mt_slug = ''holiday'', usage_count = 1\<rparr>
     \<in> set (media_tags (run_tag empty_tagging tag_history0)) \<and>
   length (tag_rows (run_tag empty_tagging tag_history0) 1) = 1 \<and>
   \<lparr>mt_id = 2, mt_name = ''Beach'', mt_slug = ''beach'', usage_count = 0\<rparr>
     \<in> set (media_tags (run_tag empty_tagging tag_history0)) \<and>
   length (tag_rows (run_tag empty_tagging tag_history0) 2) = 0"
  using usage_count_tracks_rows[of tag_history0]
  by (simp add: run_tag_history0 tag_rows_def)

subsection \<open>The sweep of expired uploads\<close>

lemma cleanup_Inr:
  assumes "cleanup_expired_uploads now s = Inr (n, s')"
  shows "n = int (length (filter (expired now) (media_chunked_uploads s)))"
    and "s' = s\<lparr>media_chunked_uploads :=
                   filter (\<lambda>u. \<not> expired now u) (media_chunked_uploads s),
                 media_upload_chunks :=
                   filter (\<lambda>c. upload_id c \<notin> cu_id ` set (filter (expired now) (media_chunked_uploads s)))
                     (media_upload_chunks s)\<rparr>"
  using assms by (simp_all add: cleanup_expired_uploads_def Let_def split: if_splits)

text \<open>
  Claim C3, as amended. Unless more than \<open>2147483647\<close> rows are swept (the count would
  not fit the \<^verbatim>\<open>INTEGER\<close> result), \<^verbatim>\<open>cleanup_expired_uploads()\<close> returns; it
  removes exactly the rows of \<^verbatim>\<open>media_chunked_uploads\<close> with \<open>expires_at\<close> before
  the clock reading and \<open>completed_at\<close> unset, together with the chunk rows that
  reference a removed upload, and returns the number of uploads removed. Every upload
  with \<open>completed_at\<close> set stays. The temporary storage is as it was: the function
  deletes records, not artifacts.
\<close>

theorem cleanup_removes_expired_records:
  assumes "length (filter (expired now) (media_chunked_uploads s)) \<le> 2147483647"
  shows "\<exists>s'. cleanup_expired_uploads now s
                = Inr (int (length (filter (expired now) (media_chunked_uploads s))), s') \<and>
         media_chunked_uploads s' = filter (\<lambda>u. \<not> expired now u) (media_chunked_uploads s) \<and>
         (\<forall>u \<in> set (media_chunked_uploads s).
            completed_at u \<noteq> None \<longrightarrow> u \<in> set (media_chunked_uploads s')) \<and>
         media_upload_chunks s' =
           filter (\<lambda>c. \<not> (\<exists>u \<in> set (media_chunked_uploads s). expired now u \<and> cu_id u = upload_id c))
             (media_upload_chunks s) \<and>
         temp_files s' = temp_files s"
proof -
  from assms obtain n s' where run: "cleanup_expired_uploads now s = Inr (n, s')"
    by (auto simp: cleanup_expired_uploads_def Let_def int4_ok_def)
  note r = cleanup_Inr[OF run]
  have a: "media_chunked_uploads s' = filter (\<lambda>u. \<not> expired now u) (media_chunked_uploads s)"
    by (simp add: r(2))
  have b: "\<forall>u \<in> set (media_chunked_uploads s).
            completed_at u \<noteq> None \<longrightarrow> u \<in> set (media_chunked_uploads s')"
    by (simp add: a expired_def)
  have c: "media_upload_chunks s' =
           filter (\<lambda>c. \<not> (\<exists>u \<in> set (media_chunked_uploads s). expired now u \<and> cu_id u = upload_id c))
             (media_upload_chunks s)"
    by (auto simp: r(2) image_iff intro!: filter_cong)
  have d: "temp_files s' = temp_files s" by (simp add: r(2))
  from run r(1) a b c d show ?thesis by blast
qed

lemma cleanup_store0: "cleanup_expired_uploads 7200 store0 = Inr (1, store1)"
  by (simp add: cleanup_expired_uploads_def store0_def store1_def expired_def int4_ok_def)

text \<open>
  Claim C3 as stated has the sweep delete the temp artifacts of what it removes. At
  \<open>store0\<close> the record of upload 7 goes and its artifact \<open>''tmp/u7''\<close> stays.
\<close>

theorem cleanup_keeps_temp_files_counterexample:
  "cleanup_expired_uploads 7200 store0 = Inr (1, store1) \<and>
   \<not> (\<forall>u \<in> set (media_chunked_uploads store0).
        expired 7200 u \<longrightarrow> temp_path u \<notin> set (temp_files store1))"
  by (simp add: cleanup_store0) (simp add: store0_def store1_def expired_def)

text \<open>
  The amended claim at \<open>store0\<close> and clock reading 7200: upload 7 and its chunk row
  are removed; upload 8, completed one tick before its expiry, and upload 9 stay.
\<close>

theorem cleanup_removes_expired_records_witness:
  "length (filter (expired 7200) (media_chunked_uploads store0)) \<le> 2147483647 \<and>
   (\<exists>s'. cleanup_expired_uploads 7200 store0 = Inr (1, s') \<and>
     media_chunked_uploads s' =
       [\<lparr>cu_id = 8, temp_path = ''tmp/u8'', expires_at = 3600, completed_at = Some 3599\<rparr>,
        \<lparr>cu_id = 9, temp_path = ''tmp/u9'', expires_at = 9000, completed_at = None\<rparr>] \<and>
     media_upload_chunks s' =
       [\<lparr>upload_id = 8, chunk_index = 0, received = True\<rparr>,
        \<lparr>upload_id = 9, chunk_index = 0, received = False\<rparr>] \<and>
     temp_files s' = temp_files store0)"
proof -
  have h: "length (filter (expired 7200) (media_chunked_uploads store0)) \<le> 2147483647"
    by (simp add: store0_def expired_def)
  have e: "filter (expired 7200) (media_chunked_uploads store0)
             = [\<lparr>cu_id = 7, temp_path = ''tmp/u7'', expires_at = 3600, completed_at = None\<rparr>]"
    by (simp add: store0_def expired_def)
  from cleanup_removes_expired_records[OF h] obtain s' where
    "cleanup_expired_uploads 7200 store0
       = Inr (int (length (filter (expired 7200) (media_chunked_uploads store0))), s')"
    "media_chunked_uploads s' = filter (\<lambda>u. \<not> expired 7200 u) (media_chunked_uploads store0)"
    "media_upload_chunks s' =
           filter (\<lambda>c. \<not> (\<exists>u \<in> set (media_chunked_uploads store0). expired 7200 u \<and> cu_id u = upload_id c))
             (media_upload_chunks store0)"
    "temp_files s' = temp_files store0"
    by blast
  then have "cleanup_expired_uploads 7200 store0 = Inr (1, s') \<and>
     media_chunked_uploads s' =
       [\<lparr>cu_id = 8, temp_path = ''tmp/u8'', expires_at = 3600, completed_at = Some 3599\<rparr>,
        \<lparr>cu_id = 9, temp_path = ''tmp/u9'', expires_at = 9000, completed_at = None\<rparr>] \<and>
     media_upload_chunks s' =
       [\<lparr>upload_id = 8, chunk_index = 0, received = True\<rparr>,
        \<lparr>upload_id = 9, chunk_index = 0, received = False\<rparr>] \<and>
     temp_files s' = temp_files store0"
    by (simp add: e) (simp add: store0_def expired_def)
  with h show ?thesis by blast
qed

subsection \<open>Deduplication\<close>

lemma find_snoc:
  "find P (xs @ [y]) = (case find P xs of None \<Rightarrow> (if P y then Some y else None) | Some x \<Rightarrow> Some x)"
  by (induction xs) auto

lemma exec_insert_items:
  "exec now s (InsertItem new) = Inr s' \<Longrightarrow>
   media_items s' = media_items s @ [new] \<and>
   content_hash new \<notin> content_hash ` set (media_items s)"
  by (auto simp: bind_pg_Inr_iff split: if_splits)

text \<open>
  Claim C2, against the ingestion path modelled from the spec and the table of the
  schema. If ingesting some content succeeds and yields the item id \<open>k\<close>, then
  ingesting the same content again, at any later clock reading and with any other fresh
  id and target folder, succeeds with the same \<open>k\<close> and leaves the database as it is:
  no row is added and nothing is raised. \<open>k\<close> is the id of a non-deleted row with the
  content's hash, and a table whose content hashes are pairwise distinct stays so.
\<close>

theorem ingest_twice_same_item:
  assumes "ingest digest now s fresh folder content = Inr (k, s1)"
  shows "ingest digest now' s1 fresh' folder' content = Inr (k, s1) \<and>
         (\<exists>m \<in> set (media_items s1).
            mi_id m = k \<and> content_hash m = digest content \<and> deleted_at m = None) \<and>
         (distinct (map content_hash (media_items s)) \<longrightarrow>
            distinct (map content_hash (media_items s1)))"
proof (cases "find (\<lambda>m. content_hash m = digest content \<and> deleted_at m = None) (media_items s)")
  case (Some m)
  with assms have eq: "k = mi_id m" "s1 = s" by (simp_all add: ingest_def)
  from Some have "m \<in> set (media_items s)" "content_hash m = digest content" "deleted_at m = None"
    by (auto simp: find_Some_iff)
  with Some eq show ?thesis by (auto simp: ingest_def)
next
  case None
  let ?new = "\<lparr>mi_id = fresh, mi_size = int (length content), folder_id = folder,
               content_hash = digest content, deleted_at = None\<rparr>"
  from None assms have "bind_pg (exec now s (InsertItem ?new)) (\<lambda>s'. Inr (fresh, s')) = Inr (k, s1)"
    by (simp add: ingest_def del: exec.simps)
  then have ex: "exec now s (InsertItem ?new) = Inr s1" and k: "k = fresh"
    unfolding bind_pg_Inr_iff by (auto simp del: exec.simps)
  note ins = exec_insert_items[OF ex]
  have "find (\<lambda>m. content_hash m = digest content \<and> deleted_at m = None) (media_items s1)
          = Some ?new"
    using None ins by (simp add: find_snoc)
  then have again: "ingest digest now' s1 fresh' folder' content = Inr (k, s1)"
    by (simp add: ingest_def k)
  have row: "\<exists>m \<in> set (media_items s1).
            mi_id m = k \<and> content_hash m = digest content \<and> deleted_at m = None"
    using ins k by auto
  have "distinct (map content_hash (media_items s)) \<longrightarrow>
            distinct (map content_hash (media_items s1))"
    using ins by auto
  with again row show ?thesis by blast
qed

text \<open>
  Claim C2 at \<open>catalog0\<close>: the first ingestion of \<open>''hello''\<close> creates item 11, the
  second one, offered the id 12, resolves to item 11 and changes nothing.
\<close>

theorem ingest_twice_same_item_witness:
  "ingest digest0 5 catalog0 11 (Some 3) ''hello'' = Inr (11, catalog2) \<and>
   ingest digest0 6 catalog2 12 None ''hello'' = Inr (11, catalog2) \<and>
   distinct (map content_hash (media_items catalog0)) \<and>
   distinct (map content_hash (media_items catalog2))"
proof -
  have h: "ingest digest0 5 catalog0 11 (Some 3) ''hello'' = Inr (11, catalog2)"
    by (simp add: ingest_def digest0_def catalog0_def catalog2_def item0_def folder_exists_def
        adjust_folder_def bind_pg_def int4_ok_def int8_ok_def)
  have d: "distinct (map content_hash (media_items catalog0))"
    by (simp add: catalog0_def)
  from ingest_twice_same_item[OF h, of 6 12 None] h d show ?thesis by simp
qed

subsection \<open>Chunked upload\<close>

lemma total_chunks_upper:
  assumes "0 < c"
  shows "s \<le> total_chunks s c * c"
proof -
  have "0 \<le> real s / real c" by simp
  then have nn: "0 \<le> \<lceil>real s / real c\<rceil>" by (simp only: zero_le_ceiling)
  from assms have "real s \<le> of_int \<lceil>real s / real c\<rceil> * real c"
    by (intro ceiling_divide_upper) simp
  also have "of_int \<lceil>real s / real c\<rceil> = real (total_chunks s c)"
    using nn by (simp add: total_chunks_def)
  finally have "real s \<le> real (total_chunks s c * c)" by simp
  then show ?thesis by (simp only: of_nat_le_iff)
qed

lemma total_chunks_lower:
  assumes "0 < c" "0 < s"
  shows "0 < total_chunks s c \<and> (total_chunks s c - 1) * c < s"
proof -
  from assms have pos: "0 < \<lceil>real s / real c\<rceil>" by (simp add: less_ceiling_iff)
  then have n: "of_int \<lceil>real s / real c\<rceil> = real (total_chunks s c)"
    and n0: "0 < total_chunks s c"
    by (simp_all add: total_chunks_def)
  from assms have "(of_int \<lceil>real s / real c\<rceil> - 1) * real c < real s"
    by (intro ceiling_divide_lower) simp
  with n n0 have "real ((total_chunks s c - 1) * c) < real s"
    by (simp add: of_nat_diff)
  then have "(total_chunks s c - 1) * c < s" by (simp only: of_nat_less_iff)
  with n0 show ?thesis by simp
qed

lemma upload_chunks_prefix:
  "prefix (fst (upload_chunks srv uid f c n i))
          (map (\<lambda>j. UploadChunk uid j (chunk_of f c j)) [i ..< n]) \<and>
   (snd (upload_chunks srv uid f c n i) \<longrightarrow>
      fst (upload_chunks srv uid f c n i) = map (\<lambda>j. UploadChunk uid j (chunk_of f c j)) [i ..< n])"
proof (induction srv uid f c n i rule: upload_chunks.induct)
  case (1 srv uid f c n i)
  show ?case
  proof (cases "i < n")
    case False
    then show ?thesis by (simp add: upload_chunks.simps[of srv uid f c n i])
  next
    case True
    then have up: "[i ..< n] = i # [i + 1 ..< n]" by (simp add: upt_conv_Cons)
    show ?thesis
    proof (cases "chunk_ok srv i")
      case False
      with True up show ?thesis by (simp add: upload_chunks.simps[of srv uid f c n i])
    next
      case ok: True
      obtain calls fin where r: "upload_chunks srv uid f c n (i + 1) = (calls, fin)"
        by (cases "upload_chunks srv uid f c n (i + 1)")
      from "1.IH"[OF True ok] r True ok up show ?thesis
        by (simp add: upload_chunks.simps[of srv uid f c n i])
    qed
  qed
qed

lemma upload_chunks_all_ok:
  "(\<And>j. chunk_ok srv j) \<Longrightarrow>
   upload_chunks srv uid f c n i = (map (\<lambda>j. UploadChunk uid j (chunk_of f c j)) [i ..< n], True)"
proof (induction srv uid f c n i rule: upload_chunks.induct)
  case (1 srv uid f c n i)
  show ?case
  proof (cases "i < n")
    case False
    then show ?thesis by (simp add: upload_chunks.simps[of srv uid f c n i])
  next
    case True
    then have up: "[i ..< n] = i # [i + 1 ..< n]" by (simp add: upt_conv_Cons)
    from "1.IH"[OF True "1.prems"(1)] "1.prems" True up show ?thesis
      by (simp add: upload_chunks.simps[of srv uid f c n i])
  qed
qed

lemma chunk_of_take:
  "chunk_of f c i = take c (drop (i * c) (file_bytes f))"
  by (simp add: chunk_of_def slice_def chunk_start_def chunk_end_def file_size_def min_def)

lemma concat_chunks:
  "concat (map (\<lambda>i. take c (drop (i * c) bs)) [0 ..< n]) = take (n * c) bs"
proof (induction n)
  case 0
  then show ?case by simp
next
  case (Suc n)
  have "take (n * c) bs @ take c (drop (n * c) bs) = take (n * c + c) bs"
    by (simp add: take_add)
  with Suc show ?case by (simp add: add.commute)
qed

lemma uploadChunked_prefix:
  assumes "init_reply srv = Some uid"
  shows "prefix (fst (uploadChunked cfg srv f folderId)) (full_conversation cfg uid f folderId)"
proof -
  let ?c = "effective_chunk_size cfg"
  let ?n = "total_chunks (file_size f) ?c"
  obtain calls fin where r: "upload_chunks srv uid f ?c ?n 0 = (calls, fin)"
    by (cases "upload_chunks srv uid f ?c ?n 0")
  from upload_chunks_prefix[of srv uid f ?c ?n 0] r
  have p: "prefix calls (map (\<lambda>j. UploadChunk uid j (chunk_of f ?c j)) [0 ..< ?n])"
    and e: "fin \<longrightarrow> calls = map (\<lambda>j. UploadChunk uid j (chunk_of f ?c j)) [0 ..< ?n]"
    by simp_all
  show ?thesis
  proof (cases fin)
    case True
    with e assms r show ?thesis
      by (simp add: uploadChunked_def full_conversation_def Let_def)
  next
    case False
    from p have "prefix calls (map (\<lambda>j. UploadChunk uid j (chunk_of f ?c j)) [0 ..< ?n]
                   @ [CompleteChunkedUpload uid])"
      by (rule prefix_prefix)
    with False assms r show ?thesis
      by (simp add: uploadChunked_def full_conversation_def Let_def)
  qed
qed

lemma uploadChunked_all_ok:
  assumes "init_reply srv = Some uid" "\<And>i. chunk_ok srv i"
  shows "uploadChunked cfg srv f folderId = (full_conversation cfg uid f folderId, complete_ok srv)"
  using assms(1) upload_chunks_all_ok[of srv uid f, OF assms(2)]
  by (simp add: uploadChunked_def full_conversation_def Let_def)

lemma effective_chunk_size_pos: "0 < effective_chunk_size cfg"
  by (simp add: effective_chunk_size_def split: option.splits)

text \<open>
  Claim C5. Let \<open>s > 0\<close> be the size of the file, \<open>c\<close> the chunk size in effect
  (always positive: a missing or zero \<^verbatim>\<open>config.chunkSize\<close> falls back to 5 MiB)
  and \<open>n = \<lceil>s / c\<rceil>\<close>. Then \<open>(n - 1) * c < s \<le> n * c\<close>, the one-chunk slack of
  the init validation. Whatever the server answers, the requests sent are an initial
  segment of: the init request with \<open>total_size = s\<close>, \<open>chunk_size = c\<close> and
  \<open>total_chunks = n\<close>, then chunk \<open>i\<close> as the byte range from \<open>i * c\<close> to
  \<open>min ((i + 1) * c) s\<close> for \<open>i = 0, \<dots>, n - 1\<close> in this order, then the completion;
  and they are all of it when no request fails. The chunks concatenated are the file,
  every chunk but the last has \<open>c\<close> bytes, the last has \<open>s - (n - 1) * c \<le> c\<close>, and
  the range of an earlier chunk ends where or before the range of a later one starts.
\<close>

theorem uploadChunked_chunks:
  assumes c: "c = effective_chunk_size cfg"
      and s: "s = file_size f" "0 < s"
      and n: "n = total_chunks s c"
  shows "0 < c \<and> (n - 1) * c < s \<and> s \<le> n * c \<and>
         (\<forall>uid. init_reply srv = Some uid \<longrightarrow>
            prefix (fst (uploadChunked cfg srv f folderId)) (full_conversation cfg uid f folderId)) \<and>
         (\<forall>uid. init_reply srv = Some uid \<and> (\<forall>i. chunk_ok srv i) \<longrightarrow>
            fst (uploadChunked cfg srv f folderId) =
              InitChunkedUpload (file_name f) s c n folderId
              # map (\<lambda>i. UploadChunk uid i (slice (file_bytes f) (i * c) (min (i * c + c) s))) [0 ..< n]
              @ [CompleteChunkedUpload uid]) \<and>
         concat (map (\<lambda>i. slice (file_bytes f) (i * c) (min (i * c + c) s)) [0 ..< n]) = file_bytes f \<and>
         (\<forall>i < n. length (slice (file_bytes f) (i * c) (min (i * c + c) s))
                    = (if i < n - 1 then c else s - (n - 1) * c)) \<and>
         s - (n - 1) * c \<le> c \<and>
         (\<forall>i j. i < j \<and> j < n \<longrightarrow> min (i * c + c) s \<le> j * c)"
proof -
  have cpos: "0 < c" by (simp add: c effective_chunk_size_pos)
  from total_chunks_lower[OF cpos s(2)] have npos: "0 < n" and lo: "(n - 1) * c < s"
    by (simp_all add: n)
  from total_chunks_upper[OF cpos] have hi: "s \<le> n * c" by (simp add: n)
  have sl: "slice (file_bytes f) (i * c) (min (i * c + c) s) = take c (drop (i * c) (file_bytes f))" for i
    using chunk_of_take[of f c i]
    by (simp add: chunk_of_def chunk_start_def chunk_end_def s(1))
  have g1: "\<forall>uid. init_reply srv = Some uid \<longrightarrow>
            prefix (fst (uploadChunked cfg srv f folderId)) (full_conversation cfg uid f folderId)"
    by (simp add: uploadChunked_prefix)
  have g2: "\<forall>uid. init_reply srv = Some uid \<and> (\<forall>i. chunk_ok srv i) \<longrightarrow>
            fst (uploadChunked cfg srv f folderId) =
              InitChunkedUpload (file_name f) s c n folderId
              # map (\<lambda>i. UploadChunk uid i (slice (file_bytes f) (i * c) (min (i * c + c) s))) [0 ..< n]
              @ [CompleteChunkedUpload uid]"
    by (auto simp: uploadChunked_all_ok full_conversation_def c s(1) n chunk_of_def
          chunk_start_def chunk_end_def)
  have "concat (map (\<lambda>i. slice (file_bytes f) (i * c) (min (i * c + c) s)) [0 ..< n])
          = take (n * c) (file_bytes f)"
    by (simp only: sl concat_chunks)
  with hi have g3: "concat (map (\<lambda>i. slice (file_bytes f) (i * c) (min (i * c + c) s)) [0 ..< n])
          = file_bytes f"
    by (simp add: s(1) file_size_def)
  have g4: "\<forall>i < n. length (slice (file_bytes f) (i * c) (min (i * c + c) s))
                    = (if i < n - 1 then c else s - (n - 1) * c)"
  proof (intro allI impI)
    fix i assume i: "i < n"
    have len: "length (slice (file_bytes f) (i * c) (min (i * c + c) s)) = min c (s - i * c)"
      unfolding sl by (simp add: s(1) file_size_def min.commute)
    show "length (slice (file_bytes f) (i * c) (min (i * c + c) s))
                    = (if i < n - 1 then c else s - (n - 1) * c)"
    proof (cases "i < n - 1")
      case True
      then have "i + 1 \<le> n - 1" by simp
      then have "(i + 1) * c \<le> (n - 1) * c" by (rule mult_le_mono1)
      with lo have "i * c + c < s" by (simp add: algebra_simps)
      with True len show ?thesis by simp
    next
      case False
      with i have "i = n - 1" by simp
      moreover from hi npos have "s - (n - 1) * c \<le> c"
        by (cases n) (simp_all add: algebra_simps)
      ultimately show ?thesis using len False by simp
    qed
  qed
  from hi npos have g5: "s - (n - 1) * c \<le> c"
    by (cases n) (simp_all add: algebra_simps)
  have g6: "\<forall>i j. i < j \<and> j < n \<longrightarrow> min (i * c + c) s \<le> j * c"
  proof (intro allI impI)
    fix i j :: nat assume "i < j \<and> j < n"
    then have "i + 1 \<le> j" by simp
    then have "(i + 1) * c \<le> j * c" by (rule mult_le_mono1)
    then show "min (i * c + c) s \<le> j * c" by (simp add: algebra_simps)
  qed
  from cpos lo hi g1 g2 g3 g4 g5 g6 show ?thesis by blast
qed

text \<open>Claim C5 at \<open>file0\<close>: ten bytes in chunks of four make three chunks, of 4, 4 and 2 bytes.\<close>

theorem uploadChunked_chunks_witness:
  "(4::nat) = effective_chunk_size config0 \<and> (10::nat) = file_size file0 \<and> (0::nat) < 10 \<and>
   (3::nat) = total_chunks 10 4 \<and>
   init_reply server0 = Some ''u1'' \<and> chunk_ok server0 0 \<and> chunk_ok server0 1 \<and> chunk_ok server0 2 \<and>
   fst (uploadChunked config0 server0 file0 None) =
     [InitChunkedUpload ''notes.TXT'' 10 4 3 None,
      UploadChunk ''u1'' 0 ''0123'', UploadChunk ''u1'' 1 ''4567'', UploadChunk ''u1'' 2 ''89'',
      CompleteChunkedUpload ''u1''] \<and>
   ''0123'' @ ''4567'' @ ''89'' = file_bytes file0"
proof -
  have h1: "(4::nat) = effective_chunk_size config0"
    by (simp add: effective_chunk_size_def config0_def)
  have h2: "(10::nat) = file_size file0" "(0::nat) < 10"
    by (simp_all add: file_size_def file0_def)
  have h3: "(3::nat) = total_chunks 10 4" by (simp add: total_chunks_def)
  have h4: "init_reply server0 = Some ''u1'' \<and> (\<forall>i. chunk_ok server0 i)"
    by (simp add: server0_def)
  have u: "[0..<3] = [0, 1, 2]" by (simp add: upt_rec)
  from uploadChunked_chunks[OF h1 h2 h3, of server0 None] h4
  have "fst (uploadChunked config0 server0 file0 None) =
          InitChunkedUpload (file_name file0) 10 4 3 None
          # map (\<lambda>i. UploadChunk ''u1'' i (slice (file_bytes file0) (i * 4) (min (i * 4 + 4) 10))) [0 ..< 3]
          @ [CompleteChunkedUpload ''u1'']"
    by blast
  then have "fst (uploadChunked config0 server0 file0 None) =
     [InitChunkedUpload ''notes.TXT'' 10 4 3 None,
      UploadChunk ''u1'' 0 ''0123'', UploadChunk ''u1'' 1 ''4567'', UploadChunk ''u1'' 2 ''89'',
      CompleteChunkedUpload ''u1'']"
    by (simp add: u slice_def file0_def)
  with h1 h2 h3 h4 show ?thesis by (simp add: file0_def)
qed

subsection \<open>Folder deletion\<close>

lemma url_false: "deleteFolder_url folderId False = ''/api/media/folders/'' @ folderId @ ''?force=false''"
  by (simp add: deleteFolder_url_def)

lemma url_true: "deleteFolder_url folderId True = ''/api/media/folders/'' @ folderId @ ''?force=true''"
  by (simp add: deleteFolder_url_def)

lemma delete_requests_cases:
  "delete_requests (deleteFolder folderId env) =
     (if \<not> answer1 env then []
      else if (\<exists>msg. request (outcome1 env) = Inl msg \<and> js_includes msg ''not empty'') \<and> answer2 env
      then [(False, deleteFolder_url folderId False), (True, deleteFolder_url folderId True)]
      else [(False, deleteFolder_url folderId False)])"
proof (cases "answer1 env")
  case False
  then show ?thesis by (simp add: deleteFolder_def)
next
  case a1: True
  show ?thesis
  proof (cases "request (outcome1 env)")
    case (Inr j)
    with a1 show ?thesis by (simp add: deleteFolder_def)
  next
    case (Inl msg)
    show ?thesis
    proof (cases "js_includes msg ''not empty''")
      case False
      with a1 Inl show ?thesis by (simp add: deleteFolder_def)
    next
      case inc: True
      show ?thesis
      proof (cases "answer2 env")
        case False
        with a1 Inl inc show ?thesis by (simp add: deleteFolder_def)
      next
        case True
        with a1 Inl inc show ?thesis
          by (cases "request (outcome2 env)") (simp_all add: deleteFolder_def)
      qed
    qed
  qed
qed

text \<open>
  Claim C8. The delete requests of the flow are none (the user declined the first
  prompt), or one with \<^verbatim>\<open>force=false\<close>, or that one followed by one with
  \<^verbatim>\<open>force=true\<close>. The second is sent exactly when the first was sent, failed with
  an error whose message includes \<^verbatim>\<open>not empty\<close>, and the user confirmed the second
  prompt. So a request with \<^verbatim>\<open>force=true\<close> is never the first one.
\<close>

theorem deleteFolder_force_after_refusal:
  "delete_requests (deleteFolder folderId env) =
     (if \<not> answer1 env then []
      else if (\<exists>msg. request (outcome1 env) = Inl msg \<and> js_includes msg ''not empty'') \<and> answer2 env
      then [(False, ''/api/media/folders/'' @ folderId @ ''?force=false''),
            (True, ''/api/media/folders/'' @ folderId @ ''?force=true'')]
      else [(False, ''/api/media/folders/'' @ folderId @ ''?force=false'')]) \<and>
   (\<forall>r \<in> set (delete_requests (deleteFolder folderId env)).
      fst r \<longrightarrow> answer1 env \<and> answer2 env \<and>
        (\<exists>msg. request (outcome1 env) = Inl msg \<and> js_includes msg ''not empty'') \<and>
        delete_requests (deleteFolder folderId env) =
          [(False, deleteFolder_url folderId False), r])"
proof
  show "delete_requests (deleteFolder folderId env) =
     (if \<not> answer1 env then []
      else if (\<exists>msg. request (outcome1 env) = Inl msg \<and> js_includes msg ''not empty'') \<and> answer2 env
      then [(False, ''/api/media/folders/'' @ folderId @ ''?force=false''),
            (True, ''/api/media/folders/'' @ folderId @ ''?force=true'')]
      else [(False, ''/api/media/folders/'' @ folderId @ ''?force=false'')])"
    by (simp only: delete_requests_cases url_false url_true)
next
  show "\<forall>r \<in> set (delete_requests (deleteFolder folderId env)).
      fst r \<longrightarrow> answer1 env \<and> answer2 env \<and>
        (\<exists>msg. request (outcome1 env) = Inl msg \<and> js_includes msg ''not empty'') \<and>
        delete_requests (deleteFolder folderId env) =
          [(False, deleteFolder_url folderId False), r]"
  proof (intro ballI impI)
    fix r assume r: "r \<in> set (delete_requests (deleteFolder folderId env))" and f: "fst r"
    let ?c = "(\<exists>msg. request (outcome1 env) = Inl msg \<and> js_includes msg ''not empty'') \<and> answer2 env"
    have a1: "answer1 env"
    proof (rule ccontr)
      assume "\<not> answer1 env"
      with r show False by (simp add: delete_requests_cases)
    qed
    have c: ?c
    proof (rule ccontr)
      assume "\<not> ?c"
      then have "delete_requests (deleteFolder folderId env) = [(False, deleteFolder_url folderId False)]"
        using a1 by (simp add: delete_requests_cases)
      with r f show False by simp
    qed
    then have all: "delete_requests (deleteFolder folderId env) =
        [(False, deleteFolder_url folderId False), (True, deleteFolder_url folderId True)]"
      using a1 by (simp add: delete_requests_cases)
    with r f have "r = (True, deleteFolder_url folderId True)" by auto
    with a1 c all show "answer1 env \<and> answer2 env \<and>
        (\<exists>msg. request (outcome1 env) = Inl msg \<and> js_includes msg ''not empty'') \<and>
        delete_requests (deleteFolder folderId env) =
          [(False, deleteFolder_url folderId False), r]"
      by blast
  qed
qed

lemma request_env0: "request (outcome1 delete_env0) = Inl ''Folder is not empty''"
  by (simp add: delete_env0_def or_default_def)

lemma includes_env0: "js_includes ''Folder is not empty'' ''not empty''"
  by simp

text \<open>
  Claim C8 at \<open>delete_env0\<close>: the refusal and two confirmations give both requests;
  with the second prompt declined only the first is sent.
\<close>

theorem deleteFolder_force_after_refusal_witness:
  "delete_requests (deleteFolder ''42'' delete_env0) =
     [(False, ''/api/media/folders/42?force=false''), (True, ''/api/media/folders/42?force=true'')] \<and>
   request (outcome1 delete_env0) = Inl ''Folder is not empty'' \<and>
   js_includes ''Folder is not empty'' ''not empty'' \<and> answer1 delete_env0 \<and> answer2 delete_env0 \<and>
   delete_requests (deleteFolder ''42'' (delete_env0\<lparr>answer2 := False\<rparr>)) =
     [(False, ''/api/media/folders/42?force=false'')]"
proof -
  have a: "answer1 delete_env0" "answer2 delete_env0"
    by (simp_all add: delete_env0_def)
  have c: "\<exists>msg. request (outcome1 delete_env0) = Inl msg \<and> js_includes msg ''not empty''"
    using request_env0 includes_env0 by simp
  have b: "answer1 (delete_env0\<lparr>answer2 := False\<rparr>)" "\<not> answer2 (delete_env0\<lparr>answer2 := False\<rparr>)"
    by (simp_all add: delete_env0_def)
  have "delete_requests (deleteFolder ''42'' delete_env0) =
     [(False, ''/api/media/folders/'' @ ''42'' @ ''?force=false''),
      (True, ''/api/media/folders/'' @ ''42'' @ ''?force=true'')]"
    using deleteFolder_force_after_refusal[of "''42''" delete_env0] a c by simp
  moreover have "delete_requests (deleteFolder ''42'' (delete_env0\<lparr>answer2 := False\<rparr>)) =
     [(False, ''/api/media/folders/'' @ ''42'' @ ''?force=false'')]"
    using deleteFolder_force_after_refusal[of "''42''" "delete_env0\<lparr>answer2 := False\<rparr>"] b by simp
  ultimately show ?thesis using a request_env0 includes_env0 by simp
qed

subsection \<open>The upload queue\<close>

text \<open>
  \<open>queue_ok\<close> holds initially and every event keeps it. Within an event the status of
  the settled item is written before the flag is cleared and the next item marked, so
  no point inside an event has more items \<^verbatim>\<open>uploading\<close> than the states between
  events have.
\<close>

lemma set_item_refs:
  "(\<And>i. qi_ref (g i) = qi_ref i) \<Longrightarrow> map qi_ref (set_item r g q) = map qi_ref q"
  by (induction q) (auto simp: set_item_def)

lemma set_item_mem:
  "j \<in> set (set_item r g q) \<Longrightarrow> \<exists>i \<in> set q. j = (if qi_ref i = r then g i else i)"
  by (auto simp: set_item_def)

lemma remove_first_subset: "set (remove_first P xs) \<subseteq> set xs"
  by (induction xs) auto

lemma remove_first_sorted:
  "sorted_wrt (<) (map f xs) \<Longrightarrow> sorted_wrt (<) (map (f :: 'a \<Rightarrow> nat) (remove_first P xs))"
proof (induction xs)
  case Nil
  then show ?case by simp
next
  case (Cons x xs)
  then show ?case using remove_first_subset[of P xs] by auto
qed

lemma find_first_least:
  "find P xs = Some x \<Longrightarrow> sorted_wrt (<) (map (f :: 'a \<Rightarrow> nat) xs) \<Longrightarrow>
   x \<in> set xs \<and> P x \<and> (\<forall>y \<in> set xs. P y \<longrightarrow> f x \<le> f y)"
proof (induction xs)
  case Nil
  then show ?case by simp
next
  case (Cons a xs)
  show ?case
  proof (cases "P a")
    case True
    with Cons.prems show ?thesis by (auto intro: less_imp_le)
  next
    case False
    with Cons show ?thesis by auto
  qed
qed

lemma sorted_refs_inj:
  "sorted_wrt (<) (map (f :: 'a \<Rightarrow> nat) xs) \<Longrightarrow> x \<in> set xs \<Longrightarrow> y \<in> set xs \<Longrightarrow> f x = f y \<Longrightarrow> x = y"
proof (induction xs)
  case Nil
  then show ?case by simp
next
  case (Cons a xs)
  then show ?case by (auto simp: less_le)
qed

lemma at_most_one:
  "sorted_wrt (<) (map (f :: 'a \<Rightarrow> nat) xs) \<Longrightarrow> (\<forall>x \<in> set xs. P x \<longrightarrow> f x = r) \<Longrightarrow>
   length (filter P xs) \<le> 1"
proof (induction xs)
  case Nil
  then show ?case by simp
next
  case (Cons a xs)
  show ?case
  proof (cases "P a")
    case False
    with Cons show ?thesis by simp
  next
    case True
    with Cons.prems have "f a = r" and "\<forall>x \<in> set xs. f a < f x" by auto
    with Cons.prems have "\<forall>x \<in> set xs. \<not> P x" by fastforce
    then have "filter P xs = []" by (simp add: filter_empty_conv)
    with True show ?thesis by simp
  qed
qed

lemma queue_okI:
  assumes "sorted_wrt (<) (map qi_ref (queue s))"
      and "\<And>i. i \<in> set (queue s) \<Longrightarrow> qi_ref i < next_ref s \<and> validateFile cfg (item_file i)"
      and "\<And>i. i \<in> set (queue s) \<Longrightarrow> status i = Uploading \<or> status i = Processing \<Longrightarrow>
             qi_ref i \<in> set (running s)"
      and "if uploading s then length (running s) = 1 else running s = []"
      and "sorted_wrt (<) (map fst (started s))"
      and "\<And>e. e \<in> set (started s) \<Longrightarrow> fst e < next_ref s \<and> validateFile cfg (fst (snd e))"
      and "\<And>e i. e \<in> set (started s) \<Longrightarrow> i \<in> set (queue s) \<Longrightarrow> status i = Pending \<Longrightarrow>
             fst e < qi_ref i"
  shows "queue_ok cfg s"
  unfolding queue_ok_def using assms by blast

lemma queue_okD:
  assumes "queue_ok cfg s"
  shows "sorted_wrt (<) (map qi_ref (queue s))"
    and "\<And>i. i \<in> set (queue s) \<Longrightarrow> qi_ref i < next_ref s \<and> validateFile cfg (item_file i)"
    and "\<And>i. i \<in> set (queue s) \<Longrightarrow> status i = Uploading \<or> status i = Processing \<Longrightarrow>
             qi_ref i \<in> set (running s)"
    and "if uploading s then length (running s) = 1 else running s = []"
    and "sorted_wrt (<) (map fst (started s))"
    and "\<And>e. e \<in> set (started s) \<Longrightarrow> fst e < next_ref s \<and> validateFile cfg (fst (snd e))"
    and "\<And>e i. e \<in> set (started s) \<Longrightarrow> i \<in> set (queue s) \<Longrightarrow> status i = Pending \<Longrightarrow>
             fst e < qi_ref i"
  using assms unfolding queue_ok_def by blast+

lemma set_item_queue_ok:
  assumes ok: "queue_ok cfg s"
      and g: "\<And>i. qi_ref (g i) = qi_ref i" "\<And>i. item_file (g i) = item_file i"
      and pend: "\<And>i. status (g i) = Pending \<Longrightarrow> status i = Pending"
      and busy: "\<And>i. i \<in> set (queue s) \<Longrightarrow> qi_ref i = r \<Longrightarrow>
                   status (g i) = Uploading \<or> status (g i) = Processing \<Longrightarrow> r \<in> set (running s)"
  shows "queue_ok cfg (s\<lparr>queue := set_item r g (queue s)\<rparr>)"
proof -
  let ?q = "set_item r g (queue s)"
  have mem: "\<exists>i \<in> set (queue s). j = (if qi_ref i = r then g i else i)" if "j \<in> set ?q" for j
    using that by (rule set_item_mem)
  have a: "sorted_wrt (<) (map qi_ref ?q)"
    using ok by (simp add: set_item_refs g queue_ok_def)
  have b: "\<forall>j \<in> set ?q. qi_ref j < next_ref s \<and> validateFile cfg (item_file j)"
  proof
    fix j assume "j \<in> set ?q"
    from mem[OF this] obtain i where "i \<in> set (queue s)" "j = (if qi_ref i = r then g i else i)"
      by blast
    with ok show "qi_ref j < next_ref s \<and> validateFile cfg (item_file j)"
      by (auto simp: queue_ok_def g)
  qed
  have c: "\<forall>j \<in> set ?q. status j = Uploading \<or> status j = Processing \<longrightarrow> qi_ref j \<in> set (running s)"
  proof (intro ballI impI)
    fix j assume "j \<in> set ?q" and st: "status j = Uploading \<or> status j = Processing"
    from mem[OF this(1)] obtain i where i: "i \<in> set (queue s)" "j = (if qi_ref i = r then g i else i)"
      by blast
    show "qi_ref j \<in> set (running s)"
    proof (cases "qi_ref i = r")
      case True
      with i st busy[OF i(1) True] show ?thesis by (simp add: g)
    next
      case False
      with i st ok show ?thesis by (auto simp: queue_ok_def)
    qed
  qed
  have d: "\<forall>e \<in> set (started s). \<forall>j \<in> set ?q. status j = Pending \<longrightarrow> fst e < qi_ref j"
  proof (intro ballI impI)
    fix e j assume e: "e \<in> set (started s)" and "j \<in> set ?q" and st: "status j = Pending"
    from mem[OF this(2)] obtain i where i: "i \<in> set (queue s)" "j = (if qi_ref i = r then g i else i)"
      by blast
    with st pend have "status i = Pending" by (auto split: if_splits)
    with ok e i(1) have "fst e < qi_ref i" by (auto simp: queue_ok_def)
    with i(2) show "fst e < qi_ref j" by (simp add: g)
  qed
  from a b c d ok show ?thesis by (simp add: queue_ok_def)
qed

lemma queue_ok_sub:
  assumes ok: "queue_ok cfg s" and sub: "\<And>i. i \<in> set q \<Longrightarrow> i \<in> set (queue s)"
      and srt: "sorted_wrt (<) (map qi_ref q)"
  shows "queue_ok cfg (s\<lparr>queue := q\<rparr>)"
proof -
  have b: "\<forall>i \<in> set q. qi_ref i < next_ref s \<and> validateFile cfg (item_file i)"
    using ok sub by (simp add: queue_ok_def)
  have c: "\<forall>i \<in> set q. status i = Uploading \<or> status i = Processing \<longrightarrow> qi_ref i \<in> set (running s)"
    using ok sub by (simp add: queue_ok_def)
  have d: "\<forall>e \<in> set (started s). \<forall>i \<in> set q. status i = Pending \<longrightarrow> fst e < qi_ref i"
    using ok sub by (simp add: queue_ok_def)
  from srt b c d ok show ?thesis by (simp add: queue_ok_def)
qed

lemma cancel_queue_ok:
  assumes "queue_ok cfg s"
  shows "queue_ok cfg (cancel itemId s)"
  unfolding cancel_def
proof (rule queue_ok_sub[OF assms])
  show "i \<in> set (queue s)" if "i \<in> set (remove_first (\<lambda>i. item_id i = itemId) (queue s))" for i
    using that remove_first_subset by fastforce
  show "sorted_wrt (<) (map qi_ref (remove_first (\<lambda>i. item_id i = itemId) (queue s)))"
    using assms by (simp add: queue_ok_def remove_first_sorted)
qed

lemma enqueue_one_queue_ok:
  assumes ok: "queue_ok cfg s" and v: "validateFile cfg f"
  shows "queue_ok cfg (s\<lparr>queue := queue s @
                    [\<lparr>qi_ref = next_ref s, item_id = new_id, item_file = f, status = Pending,
                      progress = 0, error = None\<rparr>],
                 next_ref := next_ref s + 1\<rparr>)"
proof -
  let ?new = "\<lparr>qi_ref = next_ref s, item_id = new_id, item_file = f, status = Pending,
               progress = 0, error = None\<rparr>"
  from ok have "\<forall>i \<in> set (queue s). qi_ref i < next_ref s" by (simp add: queue_ok_def)
  with ok have a: "sorted_wrt (<) (map qi_ref (queue s @ [?new]))"
    by (simp add: queue_ok_def sorted_wrt_append)
  have b: "\<forall>i \<in> set (queue s @ [?new]). qi_ref i < next_ref s + 1 \<and> validateFile cfg (item_file i)"
    using ok v by (auto simp: queue_ok_def less_Suc_eq)
  have c: "\<forall>i \<in> set (queue s @ [?new]). status i = Uploading \<or> status i = Processing
             \<longrightarrow> qi_ref i \<in> set (running s)"
    using ok by (auto simp: queue_ok_def)
  have d: "\<forall>e \<in> set (started s). fst e < next_ref s + 1 \<and> validateFile cfg (fst (snd e))"
    using ok by (auto simp: queue_ok_def less_Suc_eq)
  have e: "\<forall>e \<in> set (started s). \<forall>i \<in> set (queue s @ [?new]). status i = Pending \<longrightarrow> fst e < qi_ref i"
    using ok by (auto simp: queue_ok_def)
  from a b c d e ok show ?thesis by (simp add: queue_ok_def)
qed

lemma enqueue_all_queue_ok: "queue_ok cfg s \<Longrightarrow> queue_ok cfg (enqueue_all cfg files s)"
proof (induction cfg files s rule: enqueue_all.induct)
  case (1 cfg s)
  then show ?case by simp
next
  case (2 cfg f new_id rest s)
  show ?case
  proof (cases "validateFile cfg f")
    case False
    with 2 show ?thesis by simp
  next
    case True
    from "2.IH"(2)[OF _ enqueue_one_queue_ok[OF "2.prems" True]] True show ?thesis by simp
  qed
qed

lemma processQueue_queue_ok:
  assumes ok: "queue_ok cfg s"
  shows "queue_ok cfg (processQueue cfg s)"
proof (cases "uploading s")
  case True
  with ok show ?thesis by (simp add: processQueue_def)
next
  case idle: False
  show ?thesis
  proof (cases "find (\<lambda>i. status i = Pending) (queue s)")
    case None
    with idle ok show ?thesis by (simp add: processQueue_def)
  next
    case (Some item)
    let ?r = "qi_ref item"
    let ?g = "\<lambda>i. i\<lparr>status := Uploading\<rparr>"
    let ?s1 = "s\<lparr>uploading := True, running := [?r]\<rparr>"
    from ok have srt: "sorted_wrt (<) (map qi_ref (queue s))" by (simp add: queue_ok_def)
    from find_first_least[OF Some srt]
    have item: "item \<in> set (queue s)" "status item = Pending"
      and least: "\<forall>y \<in> set (queue s). status y = Pending \<longrightarrow> ?r \<le> qi_ref y"
      by simp_all
    from ok idle have norun: "running s = []" by (simp add: queue_ok_def)
    have before: "\<forall>e \<in> set (started s). fst e < ?r"
      using ok item by (auto simp: queue_ok_def)
    have ok1: "queue_ok cfg ?s1"
      using ok norun idle by (simp add: queue_ok_def)
    have ok2: "queue_ok cfg (?s1\<lparr>queue := set_item ?r ?g (queue ?s1)\<rparr>)"
      by (rule set_item_queue_ok[OF ok1]) simp_all
    let ?q = "set_item ?r ?g (queue s)"
    let ?st = "started s @ [(?r, item_file item, uses_chunked cfg (item_file item))]"
    have a: "sorted_wrt (<) (map fst ?st)"
      using ok before by (simp add: queue_ok_def sorted_wrt_append)
    have b: "\<forall>e \<in> set ?st. fst e < next_ref s \<and> validateFile cfg (fst (snd e))"
      using ok item by (auto simp: queue_ok_def)
    have c: "\<forall>e \<in> set ?st. \<forall>j \<in> set ?q. status j = Pending \<longrightarrow> fst e < qi_ref j"
    proof (intro ballI impI)
      fix e j assume e: "e \<in> set ?st" and j: "j \<in> set ?q" and p: "status j = Pending"
      from set_item_mem[OF j] obtain i where i: "i \<in> set (queue s)"
        "j = (if qi_ref i = ?r then ?g i else i)" by blast
      with p have ne: "qi_ref i \<noteq> ?r" and ji: "j = i" by (auto split: if_splits)
      with p i least have "?r \<le> qi_ref i" by simp
      with ne have lt: "?r < qi_ref j" by (simp add: ji)
      show "fst e < qi_ref j"
      proof (cases "e \<in> set (started s)")
        case True
        with before lt show ?thesis by fastforce
      next
        case False
        with e lt show ?thesis by simp
      qed
    qed
    let ?s2 = "s\<lparr>uploading := True, queue := ?q, running := running s @ [?r], started := ?st\<rparr>"
    have sel: "queue ?s2 = ?q" "running ?s2 = [?r]" "started ?s2 = ?st" "next_ref ?s2 = next_ref s"
      "uploading ?s2" "queue (?s1\<lparr>queue := set_item ?r ?g (queue ?s1)\<rparr>) = ?q"
      "running (?s1\<lparr>queue := set_item ?r ?g (queue ?s1)\<rparr>) = [?r]"
      "next_ref (?s1\<lparr>queue := set_item ?r ?g (queue ?s1)\<rparr>) = next_ref s"
      by (simp_all add: norun)
    have "queue_ok cfg ?s2"
    proof (rule queue_okI)
      show "sorted_wrt (<) (map qi_ref (queue ?s2))"
        using queue_okD(1)[OF ok2] by (simp only: sel)
      show "\<And>i. i \<in> set (queue ?s2) \<Longrightarrow> qi_ref i < next_ref ?s2 \<and> validateFile cfg (item_file i)"
        using queue_okD(2)[OF ok2] by (simp only: sel)
      show "\<And>i. i \<in> set (queue ?s2) \<Longrightarrow> status i = Uploading \<or> status i = Processing \<Longrightarrow>
               qi_ref i \<in> set (running ?s2)"
        using queue_okD(3)[OF ok2] by (simp only: sel)
      show "if uploading ?s2 then length (running ?s2) = 1 else running ?s2 = []"
        by (simp only: sel) simp
      show "sorted_wrt (<) (map fst (started ?s2))"
        using a by (simp only: sel)
      show "\<And>e. e \<in> set (started ?s2) \<Longrightarrow> fst e < next_ref ?s2 \<and> validateFile cfg (fst (snd e))"
        using b by (simp only: sel)
      show "\<And>e i. e \<in> set (started ?s2) \<Longrightarrow> i \<in> set (queue ?s2) \<Longrightarrow> status i = Pending \<Longrightarrow>
               fst e < qi_ref i"
        using c by (simp only: sel)
    qed
    with idle Some show ?thesis by (simp add: processQueue_def)
  qed
qed

lemma settled_queue_ok:
  assumes ok: "queue_ok cfg s" and r: "r \<in> set (running s)"
      and g: "\<And>i. qi_ref (g i) = qi_ref i" "\<And>i. item_file (g i) = item_file i"
             "\<And>i. status (g i) = Complete \<or> status (g i) = Error"
  shows "queue_ok cfg (s\<lparr>queue := set_item r g (queue s), uploading := False,
                          running := removeAll r (running s)\<rparr>)"
proof -
  let ?q = "set_item r g (queue s)"
  let ?s1 = "s\<lparr>queue := ?q\<rparr>"
  let ?s2 = "s\<lparr>queue := ?q, uploading := False, running := removeAll r (running s)\<rparr>"
  from queue_okD(4)[OF ok] r have run: "running s = [r]"
    by (cases "uploading s"; cases "running s") auto
  have fin: "status (g i) \<noteq> Pending" "status (g i) \<noteq> Uploading" "status (g i) \<noteq> Processing" for i
    using g(3)[of i] by auto
  have ok1: "queue_ok cfg ?s1"
    by (rule set_item_queue_ok[OF ok g(1,2)]) (simp_all add: fin)
  have sel: "queue ?s2 = ?q" "running ?s2 = []" "started ?s2 = started s" "next_ref ?s2 = next_ref s"
      "\<not> uploading ?s2" "queue ?s1 = ?q" "started ?s1 = started s" "next_ref ?s1 = next_ref s"
    by (simp_all add: run)
  show ?thesis
  proof (rule queue_okI)
    show "sorted_wrt (<) (map qi_ref (queue ?s2))"
      using queue_okD(1)[OF ok1] by (simp only: sel)
    show "\<And>i. i \<in> set (queue ?s2) \<Longrightarrow> qi_ref i < next_ref ?s2 \<and> validateFile cfg (item_file i)"
      using queue_okD(2)[OF ok1] by (simp only: sel)
    show "qi_ref j \<in> set (running ?s2)"
      if j: "j \<in> set (queue ?s2)" and st: "status j = Uploading \<or> status j = Processing" for j
    proof -
      from j have "j \<in> set ?q" by (simp only: sel)
      from set_item_mem[OF this] obtain i where i: "i \<in> set (queue s)"
        "j = (if qi_ref i = r then g i else i)" by blast
      show ?thesis
      proof (cases "qi_ref i = r")
        case True
        with i st fin show ?thesis by auto
      next
        case False
        with i st have "status i = Uploading \<or> status i = Processing" by simp
        from queue_okD(3)[OF ok i(1) this] run False show ?thesis by simp
      qed
    qed
    show "if uploading ?s2 then length (running ?s2) = 1 else running ?s2 = []"
      by (simp only: sel) simp
    show "sorted_wrt (<) (map fst (started ?s2))"
      using queue_okD(5)[OF ok1] by (simp only: sel)
    show "\<And>e. e \<in> set (started ?s2) \<Longrightarrow> fst e < next_ref ?s2 \<and> validateFile cfg (fst (snd e))"
      using queue_okD(6)[OF ok1] by (simp only: sel)
    show "\<And>e i. e \<in> set (started ?s2) \<Longrightarrow> i \<in> set (queue ?s2) \<Longrightarrow> status i = Pending \<Longrightarrow>
               fst e < qi_ref i"
      using queue_okD(7)[OF ok1] by (simp only: sel)
  qed
qed

lemma step_queue_ok:
  assumes ok: "queue_ok cfg s"
  shows "queue_ok cfg (step cfg s e)"
proof (cases e)
  case (AddFiles files)
  then show ?thesis
    by (simp add: addFiles_def processQueue_queue_ok enqueue_all_queue_ok ok)
next
  case (Cancel itemId)
  then show ?thesis by (simp add: cancel_queue_ok ok)
next
  case (Progress r p)
  have "queue_ok cfg (s\<lparr>queue := set_item r (\<lambda>i. i\<lparr>progress := p\<rparr>) (queue s)\<rparr>)"
    by (rule set_item_queue_ok[OF ok]) (use queue_okD(3)[OF ok] in auto)
  with Progress ok show ?thesis by simp
next
  case (EnterProcessing r)
  show ?thesis
  proof (cases "r \<in> set (running s) \<and> (\<exists>e \<in> set (started s). fst e = r \<and> snd (snd e))")
    case False
    with EnterProcessing ok show ?thesis by auto
  next
    case True
    have "queue_ok cfg (s\<lparr>queue := set_item r (\<lambda>i. i\<lparr>status := Processing\<rparr>) (queue s)\<rparr>)"
      by (rule set_item_queue_ok[OF ok]) (use True in simp_all)
    with EnterProcessing True show ?thesis by simp
  qed
next
  case (Settled r outcome)
  show ?thesis
  proof (cases "r \<in> set (running s)")
    case False
    with Settled ok show ?thesis by simp
  next
    case True
    let ?g = "case outcome of
                None \<Rightarrow> (\<lambda>i. i\<lparr>status := Complete, progress := 100\<rparr>)
              | Some msg \<Rightarrow> (\<lambda>i. i\<lparr>status := Error, error := Some msg\<rparr>)"
    have "queue_ok cfg (s\<lparr>queue := set_item r ?g (queue s), uploading := False,
                          running := removeAll r (running s)\<rparr>)"
      by (rule settled_queue_ok[OF ok True]) (simp_all split: option.splits)
    from processQueue_queue_ok[OF this] Settled True show ?thesis by simp
  qed
qed

lemma run_client_queue_ok: "queue_ok cfg s \<Longrightarrow> queue_ok cfg (run_client cfg s es)"
  by (induction es arbitrary: s) (simp_all add: step_queue_ok)

lemma initial_queue_ok: "queue_ok cfg initial_state"
  by (simp add: queue_ok_def initial_state_def)

lemma started_enqueue_all: "started (enqueue_all cfg files s) = started s"
  by (induction cfg files s rule: enqueue_all.induct) simp_all

lemma started_processQueue: "length (started (processQueue cfg s)) \<le> length (started s) + 1"
  by (simp add: processQueue_def split: option.splits)

lemma started_step: "length (started (step cfg s e)) \<le> length (started s) + 1"
proof (cases e)
  case (AddFiles files)
  with started_processQueue[of cfg "enqueue_all cfg files s"] show ?thesis
    by (simp add: addFiles_def started_enqueue_all)
next
  case (Cancel itemId)
  then show ?thesis by (simp add: cancel_def)
next
  case (Progress r p)
  then show ?thesis by simp
next
  case (EnterProcessing r)
  then show ?thesis by simp
next
  case (Settled r outcome)
  let ?g = "case outcome of
                None \<Rightarrow> (\<lambda>i. i\<lparr>status := Complete, progress := 100\<rparr>)
              | Some msg \<Rightarrow> (\<lambda>i. i\<lparr>status := Error, error := Some msg\<rparr>)"
  from started_processQueue[of cfg "s\<lparr>queue := set_item r ?g (queue s), uploading := False,
                          running := removeAll r (running s)\<rparr>"] Settled
  show ?thesis by simp
qed

text \<open>
  Claim C7. In every state the client reaches from its initial state, by any sequence
  of files added, items cancelled, progress reports, chunked uploads entering
  \<^verbatim>\<open>processing\<close> and uploads settling: at most one item of the queue has the status
  \<^verbatim>\<open>uploading\<close>; while the flag \<^verbatim>\<open>uploading\<close> is set, \<^verbatim>\<open>processQueue\<close>
  returns without starting anything; no event starts more than one upload; the queue
  is in the order its items were created; uploads were started in that order; and no
  item still pending is older than an upload already started.
\<close>

theorem one_upload_at_a_time:
  assumes s: "s = run_client cfg initial_state es"
  shows "length (filter (\<lambda>i. status i = Uploading) (queue s)) \<le> 1 \<and>
         (uploading s \<longrightarrow> processQueue cfg s = s) \<and>
         (\<forall>e. length (started (step cfg s e)) \<le> length (started s) + 1) \<and>
         sorted_wrt (<) (map qi_ref (queue s)) \<and>
         sorted_wrt (<) (map fst (started s)) \<and>
         (\<forall>e \<in> set (started s). \<forall>i \<in> set (queue s). status i = Pending \<longrightarrow> fst e < qi_ref i)"
proof -
  have ok: "queue_ok cfg s"
    unfolding s by (rule run_client_queue_ok[OF initial_queue_ok])
  note srt = queue_okD(1)[OF ok]
  have one: "length (filter (\<lambda>i. status i = Uploading) (queue s)) \<le> 1"
  proof (cases "running s")
    case Nil
    with queue_okD(3)[OF ok] have "\<forall>i \<in> set (queue s). status i \<noteq> Uploading" by auto
    then have "filter (\<lambda>i. status i = Uploading) (queue s) = []"
      by (simp add: filter_empty_conv)
    then show ?thesis by simp
  next
    case (Cons r rest)
    with queue_okD(4)[OF ok] have "running s = [r]"
      by (cases "uploading s") auto
    with queue_okD(3)[OF ok] have "\<forall>i \<in> set (queue s). status i = Uploading \<longrightarrow> qi_ref i = r"
      by auto
    from at_most_one[OF srt this] show ?thesis .
  qed
  have busy: "uploading s \<longrightarrow> processQueue cfg s = s"
    by (simp add: processQueue_def)
  from one busy started_step srt queue_okD(5)[OF ok] queue_okD(7)[OF ok] show ?thesis by blast
qed

lemma js_split_nonempty: "js_split c xs \<noteq> []"
  by (induction xs) (auto split: list.splits)

lemma js_split_none: "c \<notin> set xs \<Longrightarrow> js_split c xs = [xs]"
  by (induction xs) auto

lemma js_split_append: "js_split c (xs @ c # ys) = js_split c xs @ js_split c ys"
proof (induction xs)
  case Nil
  then show ?case by simp
next
  case (Cons x xs)
  obtain seg segs where sp: "js_split c xs = seg # segs"
    using js_split_nonempty[of c xs] by (cases "js_split c xs") auto
  with Cons show ?case by simp
qed

lemma last_js_split: "c \<notin> set post \<Longrightarrow> last (js_split c (pre @ c # post)) = post"
  by (simp add: js_split_append js_split_none)

lemma files_enqueue_all:
  "map item_file (queue (enqueue_all cfg files s))
     = map item_file (queue s) @ filter (validateFile cfg) (map fst files)"
  by (induction cfg files s rule: enqueue_all.induct) simp_all

lemma files_processQueue: "map item_file (queue (processQueue cfg s)) = map item_file (queue s)"
  by (simp add: processQueue_def set_item_def o_def split: option.splits)

text \<open>
  Claim C10, as amended. \<^verbatim>\<open>validateFile\<close> accepts a file if and only if
  \<^verbatim>\<open>config.maxFileSize\<close> is unset or the file's size is at most it (a size equal
  to the limit is accepted), and \<^verbatim>\<open>config.allowedExtensions\<close> is unset or holds
  the file's extension. The extension is the lowercased text after the last dot of the
  name, and the lowercased whole name when the name has no dot. \<^verbatim>\<open>addFiles\<close>
  appends to the queue exactly the accepted files, in order; and in every state the
  client reaches, every file in the queue and every file an upload was started for was
  accepted by \<^verbatim>\<open>validateFile\<close>.
\<close>

theorem queue_accepts_validated_files:
  "(validateFile cfg f \<longleftrightarrow>
      (case maxFileSize cfg of None \<Rightarrow> True | Some m \<Rightarrow> file_size f \<le> m) \<and>
      (case allowedExtensions cfg of None \<Rightarrow> True | Some exts \<Rightarrow> file_ext f \<in> set exts)) \<and>
   (CHR ''.'' \<notin> set post \<longrightarrow>
      file_ext \<lparr>file_name = pre @ CHR ''.'' # post, file_bytes = bs\<rparr> = toLowerCase post) \<and>
   (CHR ''.'' \<notin> set nm \<longrightarrow> file_ext \<lparr>file_name = nm, file_bytes = bs\<rparr> = toLowerCase nm) \<and>
   map item_file (queue (addFiles cfg files s))
     = map item_file (queue s) @ filter (validateFile cfg) (map fst files) \<and>
   (\<forall>i \<in> set (queue (run_client cfg initial_state es)). validateFile cfg (item_file i)) \<and>
   (\<forall>e \<in> set (started (run_client cfg initial_state es)). validateFile cfg (fst (snd e)))"
proof -
  have v: "validateFile cfg f \<longleftrightarrow>
      (case maxFileSize cfg of None \<Rightarrow> True | Some m \<Rightarrow> file_size f \<le> m) \<and>
      (case allowedExtensions cfg of None \<Rightarrow> True | Some exts \<Rightarrow> file_ext f \<in> set exts)"
    by (auto simp: validateFile_def split: option.splits)
  have e1: "CHR ''.'' \<notin> set post \<longrightarrow>
      file_ext \<lparr>file_name = pre @ CHR ''.'' # post, file_bytes = bs\<rparr> = toLowerCase post"
    by (simp add: file_ext_def last_js_split)
  have e2: "CHR ''.'' \<notin> set nm \<longrightarrow> file_ext \<lparr>file_name = nm, file_bytes = bs\<rparr> = toLowerCase nm"
    by (simp add: file_ext_def js_split_none)
  have q: "map item_file (queue (addFiles cfg files s))
     = map item_file (queue s) @ filter (validateFile cfg) (map fst files)"
    by (simp add: addFiles_def files_processQueue files_enqueue_all)
  have ok: "queue_ok cfg (run_client cfg initial_state es)"
    by (rule run_client_queue_ok[OF initial_queue_ok])
  from v e1 e2 q queue_okD(2)[OF ok] queue_okD(6)[OF ok] show ?thesis by blast
qed

lemma valid0: "validateFile config0 file0"
  by (simp add: validateFile_def config0_def file0_def file_size_def file_ext_def
        toLowerCase_def lower_char_def)

lemma valid_png: "validateFile config0 file_png"
  by (simp add: validateFile_def config0_def file_png_def file_size_def file_ext_def
        toLowerCase_def lower_char_def)

lemma invalid_big: "\<not> validateFile config0 file_big"
  by (simp add: validateFile_def config0_def file_big_def file_size_def)

lemma invalid_exe: "\<not> validateFile config0 file_exe"
  by (simp add: validateFile_def config0_def file_exe_def file_size_def file_ext_def
        toLowerCase_def lower_char_def)

lemma chunked0: "uses_chunked config0 file0" "uses_chunked config0 file_png"
  by (simp_all add: uses_chunked_def config0_def file0_def file_png_def file_size_def)

lemma run_session0:
  "run_client config0 initial_state session0 =
     \<lparr>queue = [\<lparr>qi_ref = 0, item_id = ''upload_2'', item_file = file0, status = Uploading,
                 progress = 0, error = None\<rparr>,
               \<lparr>qi_ref = 1, item_id = ''upload_4'', item_file = file_png, status = Pending,
                 progress = 0, error = None\<rparr>],
      uploading = True, running = [0], started = [(0, file0, True)], next_ref = 2\<rparr>"
  by (simp add: session0_def initial_state_def addFiles_def processQueue_def set_item_def
        valid0 valid_png invalid_big invalid_exe chunked0)

lemma run_client_snoc: "run_client cfg s (es @ [e]) = step cfg (run_client cfg s es) e"
  by (induction es arbitrary: s) simp_all

lemma run_session0_settled:
  "run_client config0 initial_state (session0 @ [Settled 0 None]) =
     \<lparr>queue = [\<lparr>qi_ref = 0, item_id = ''upload_2'', item_file = file0, status = Complete,
                 progress = 100, error = None\<rparr>,
               \<lparr>qi_ref = 1, item_id = ''upload_4'', item_file = file_png, status = Uploading,
                 progress = 0, error = None\<rparr>],
      uploading = True, running = [1], started = [(0, file0, True), (1, file_png, True)],
      next_ref = 2\<rparr>"
  unfolding run_client_snoc
  by (simp add: run_session0 processQueue_def set_item_def chunked0)

text \<open>
  Claim C7 at \<open>session0\<close>: while the first upload is in flight the second item waits
  and \<^verbatim>\<open>processQueue\<close> changes nothing; once the first settles the second starts.
\<close>

theorem one_upload_at_a_time_witness:
  "uploading (run_client config0 initial_state session0) \<and>
   processQueue config0 (run_client config0 initial_state session0)
     = run_client config0 initial_state session0 \<and>
   map status (queue (run_client config0 initial_state session0)) = [Uploading, Pending] \<and>
   map status (queue (run_client config0 initial_state (session0 @ [Settled 0 None])))
     = [Complete, Uploading] \<and>
   map fst (started (run_client config0 initial_state (session0 @ [Settled 0 None]))) = [0, 1]"
proof -
  have u: "uploading (run_client config0 initial_state session0)"
    by (simp add: run_session0)
  from one_upload_at_a_time[OF refl, of config0 session0] u
  have "processQueue config0 (run_client config0 initial_state session0)
          = run_client config0 initial_state session0"
    by blast
  with u show ?thesis
    by (simp add: run_session0_settled) (simp add: run_session0)
qed

text \<open>
  The amended claim C10 under \<open>config0\<close>: the 10-byte file meets the limit of 10 and
  is queued, the 11-byte file and the \<^verbatim>\<open>.exe\<close> are not, and only queued files are
  uploaded.
\<close>

theorem queue_accepts_validated_files_witness:
  "validateFile config0 file0 \<and> maxFileSize config0 = Some 10 \<and> file_size file0 = 10 \<and>
   \<not> validateFile config0 file_big \<and> file_size file_big = 11 \<and>
   \<not> validateFile config0 file_exe \<and> file_ext file_exe = ''exe'' \<and>
   file_ext file_png = ''png'' \<and>
   map item_file (queue (addFiles config0
      [(file_big, ''upload_1''), (file0, ''upload_2''), (file_exe, ''upload_3'')] initial_state))
     = [file0] \<and>
   map (fst \<circ> snd) (started (run_client config0 initial_state (session0 @ [Settled 0 None])))
     = [file0, file_png]"
proof -
  have sz: "maxFileSize config0 = Some 10" "file_size file0 = 10" "file_size file_big = 11"
    "allowedExtensions config0 = Some [''txt'', ''png'']"
    by (simp_all add: config0_def file0_def file_big_def file_size_def)
  have ex: "file_ext file0 = ''txt''"
    using queue_accepts_validated_files[of config0 file0 "''TXT''" "''notes''" "file_bytes file0"]
    by (simp add: file0_def toLowerCase_def lower_char_def)
  have ex2: "file_ext file_exe = ''exe''"
    using queue_accepts_validated_files[of config0 file0 "''exe''" "''setup''" "file_bytes file_exe"]
    by (simp add: file_exe_def toLowerCase_def lower_char_def)
  have ex3: "file_ext file_png = ''png''"
    using queue_accepts_validated_files[of config0 file0 "''PNG''" "''photo.v2''" "file_bytes file_png"]
    by (simp add: file_png_def toLowerCase_def lower_char_def)
  have v0: "validateFile config0 file0"
    using queue_accepts_validated_files[of config0 file0] sz ex by simp
  have v1: "\<not> validateFile config0 file_big"
    using queue_accepts_validated_files[of config0 file_big] sz by simp
  have v2: "\<not> validateFile config0 file_exe"
    using queue_accepts_validated_files[of config0 file_exe] sz ex2 by simp
  have q: "map item_file (queue (addFiles config0
      [(file_big, ''upload_1''), (file0, ''upload_2''), (file_exe, ''upload_3'')] initial_state))
     = [file0]"
    using queue_accepts_validated_files[of config0 file0 "[]" "[]" "[]" "[]"
            "[(file_big, ''upload_1''), (file0, ''upload_2''), (file_exe, ''upload_3'')]" initial_state]
          v0 v1 v2
    by (simp add: initial_state_def)
  have st: "map (fst \<circ> snd) (started (run_client config0 initial_state (session0 @ [Settled 0 None])))
     = [file0, file_png]"
    by (simp add: run_session0_settled)
  from sz ex2 ex3 v0 v1 v2 q st show ?thesis by simp
qed

text \<open>
  Claim C10 as stated makes \<open>size \<le> config.maxFileSize\<close> necessary for a file to be
  queued. With no \<^verbatim>\<open>maxFileSize\<close> configured there is no limit the size could be
  below, and the file is queued all the same.
\<close>

theorem queue_accepts_without_limit_counterexample:
  "map item_file (queue (addFiles config_unset [(file_big, ''upload_1'')] initial_state)) = [file_big] \<and>
   \<not> (\<exists>m. maxFileSize config_unset = Some m \<and> file_size file_big \<le> m)"
  by (simp add: addFiles_def processQueue_def set_item_def validateFile_def config_unset_def
        initial_state_def)

end
